theory Spec2Isabelle
  imports Complex_Main "HOL-Library.Multiset"
begin

section \<open>Flashcard player: data model\<close>

text \<open>
  The player is one React component. Its \<open>useState\<close> values are captured by every
  closure created during a render, its \<open>useRef\<close> cells are mutable and read live.
  The embedding keeps the two apart: state values travel in a \<open>render\<close> record that a
  callback carries with it, ref cells are fields of the \<open>session\<close> record.

  JavaScript numbers used as counts and rates are modelled as \<open>rat\<close> (every finite
  double is a rational, and clamping and subtracting 1 from a value in [1,5] are exact);
  indices are \<open>int option\<close>, where \<open>None\<close> is NaN. Display texts are lists of
  UTF-16 code units, file names and URLs are ASCII strings.

  The identity of a card is a JavaScript number of which the player only ever takes the
  text, \<open>String(card.id)\<close>. That text is the plain decimal numeral exactly for the safe
  integers, those of magnitude at most \<open>2^53 - 1\<close>. An identity is therefore either a
  safe integer, or any other number, which is kept as the text \<open>String\<close> makes of it:
  \<open>1.5\<close> for a fraction, the shortest digits that read back as the same double
  followed by zeros for an integer beyond the safe range (\<open>String(2**60)\<close> is
  \<open>1152921504606847000\<close>), exponent notation from \<open>1e21\<close> on (\<open>1e+21\<close>),
  \<open>NaN\<close>, \<open>Infinity\<close>.
\<close>

typedef safe_int = "{i :: int. - (2 ^ 53 - 1) \<le> i \<and> i \<le> 2 ^ 53 - 1}"
  by (rule exI [of _ 0]) simp

datatype js_number = SafeInt safe_int | OtherNumber string

datatype lang = KoKR | EnUS

fun lang_tag :: "lang \<Rightarrow> string" where
  "lang_tag KoKR = ''ko-KR''"
| "lang_tag EnUS = ''en-US''"

type_synonym jsstring = "nat list"

record tts_hint =
  tts_lang :: "lang option"
  tts_rate :: "rat option"

record card =
  card_id :: js_number
  card_term :: jsstring
  card_description :: "jsstring option"
  card_imageUrl :: "jsstring option"
  card_tts :: "tts_hint option"

record folder =
  folder_id :: int
  folder_name :: jsstring
  folder_cards :: "card list"

subsection \<open>Audio file name and URL\<close>

text \<open>
  \<open>String(x)\<close>: the decimal numeral of a safe integer, with a minus sign below zero, and
  the text that stands for any other number.
\<close>

definition digit_char :: "nat \<Rightarrow> char" where
  "digit_char d = ''0123456789'' ! d"

function dec_digits :: "nat \<Rightarrow> string" where
  "dec_digits n = (if n < 10 then [digit_char n]
                   else dec_digits (n div 10) @ [digit_char (n mod 10)])"
  by pat_completeness auto
termination
  by (relation "measure (\<lambda>n. n)") auto

declare dec_digits.simps [simp del]

definition js_String :: "js_number \<Rightarrow> string" where
  "js_String x =
     (case x of
        SafeInt n \<Rightarrow>
          (let i = Rep_safe_int n
           in if i < 0 then CHR ''-'' # dec_digits (nat (- i)) else dec_digits (nat i))
      | OtherNumber t \<Rightarrow> t)"

text \<open>\<open>s.padStart(n, c)\<close> with a one-character filler.\<close>

definition padStart :: "nat \<Rightarrow> char \<Rightarrow> string \<Rightarrow> string" where
  "padStart n c s = replicate (n - length s) c @ s"

text \<open>\<open>card.tts?.lang ?? "ko-KR"\<close>\<close>

definition lang_of :: "card \<Rightarrow> lang option" where
  "lang_of c = (case card_tts c of None \<Rightarrow> None | Some t \<Rightarrow> tts_lang t)"

definition audioFileName :: "card \<Rightarrow> string" where
  "audioFileName c =
     (let ident = padStart 4 CHR ''0'' (js_String (card_id c));
          l = (case lang_of c of None \<Rightarrow> ''ko-KR'' | Some t \<Rightarrow> lang_tag t)
      in ident @ ''_'' @ l @ ''.mp3'')"

text \<open>
  \<open>encodeURIComponent\<close> on a string of bytes: letters, digits and \<open>- _ . ! ~ * ' ( )\<close>
  stay, every other byte becomes \<open>%XX\<close> in upper-case hexadecimal.
\<close>

definition uri_unreserved :: "char \<Rightarrow> bool" where
  "uri_unreserved c =
     (let n = (of_char c :: nat)
      in (65 \<le> n \<and> n \<le> 90) \<or> (97 \<le> n \<and> n \<le> 122) \<or> (48 \<le> n \<and> n \<le> 57)
         \<or> n = 45 \<or> n = 95 \<or> n = 46 \<or> n = 33 \<or> n = 126 \<or> n = 42 \<or> n = 39
         \<or> n = 40 \<or> n = 41)"

definition hex_char :: "nat \<Rightarrow> char" where
  "hex_char d = ''0123456789ABCDEF'' ! d"

definition pct_encode :: "char \<Rightarrow> string" where
  "pct_encode c = [CHR ''%'', hex_char (of_char c div 16), hex_char (of_char c mod 16)]"

definition encodeURIComponent :: "string \<Rightarrow> string" where
  "encodeURIComponent s = concat (map (\<lambda>c. if uri_unreserved c then [c] else pct_encode c) s)"

definition audioUrlOf :: "card \<Rightarrow> string" where
  "audioUrlOf c = ''/audio/'' @ encodeURIComponent (audioFileName c)"

text \<open>
  The locator convention in the specification's words: the identity written with four
  decimal digits, an underscore, the language tag, and the extension.
\<close>

definition zero_padded4 :: "nat \<Rightarrow> string" where
  "zero_padded4 n =
     [digit_char (n div 1000 mod 10), digit_char (n div 100 mod 10),
      digit_char (n div 10 mod 10), digit_char (n mod 10)]"

definition spec_audio_file :: "nat \<Rightarrow> lang \<Rightarrow> string" where
  "spec_audio_file n l = zero_padded4 n @ ''_'' @ lang_tag l @ ''.mp3''"

section \<open>Deck/index navigator\<close>

text \<open>
  JavaScript's \<open>%\<close> on integers: the remainder takes the sign of the dividend, and a
  zero divisor gives NaN. NaN is absorbing.
\<close>

definition js_rem :: "int option \<Rightarrow> int \<Rightarrow> int option" where
  "js_rem a b =
     (case a of None \<Rightarrow> None
      | Some x \<Rightarrow> if b = 0 then None else Some (sgn x * (\<bar>x\<bar> mod \<bar>b\<bar>)))"

definition js_add :: "int option \<Rightarrow> int \<Rightarrow> int option" where
  "js_add a b = (case a of None \<Rightarrow> None | Some x \<Rightarrow> Some (x + b))"

text \<open>\<open>[arr[i], arr[j]] = [arr[j], arr[i]]\<close>\<close>

definition swap_at :: "nat \<Rightarrow> nat \<Rightarrow> nat list \<Rightarrow> nat list" where
  "swap_at i j arr = arr[i := arr ! j, j := arr ! i]"

text \<open>\<open>Math.floor(r * (i + 1))\<close> for a draw \<open>r\<close> of \<open>Math.random()\<close>, which lies in [0,1).\<close>

definition random_index :: "rat \<Rightarrow> nat \<Rightarrow> nat" where
  "random_index r i = nat \<lfloor>r * of_nat (i + 1)\<rfloor>"

text \<open>
  The loop \<open>for (i = arr.length - 1; i > 0; i--)\<close>; \<open>rnd k\<close> is the result of the
  \<open>k\<close>-th call of \<open>Math.random()\<close>.
\<close>

fun fisher_yates :: "(nat \<Rightarrow> rat) \<Rightarrow> nat \<Rightarrow> nat \<Rightarrow> nat list \<Rightarrow> nat list" where
  "fisher_yates rnd k 0 arr = arr"
| "fisher_yates rnd k (Suc m) arr =
     fisher_yates rnd (Suc k) m (swap_at (Suc m) (random_index (rnd k) (Suc m)) arr)"

definition reorder :: "(nat \<Rightarrow> rat) \<Rightarrow> bool \<Rightarrow> 'a list \<Rightarrow> nat list" where
  "reorder rnd shuf cs =
     (let base = [0..<length cs]
      in if shuf then fisher_yates rnd 0 (length base - 1) base else base)"

text \<open>\<open>orderRef.current[i] ?? i\<close>\<close>

definition logicalIndexToReal :: "nat list \<Rightarrow> int option \<Rightarrow> int option" where
  "logicalIndexToReal ord i =
     (case i of None \<Rightarrow> None
      | Some k \<Rightarrow> if 0 \<le> k \<and> nat k < length ord then Some (int (ord ! nat k)) else Some k)"

text \<open>\<open>cards[realIdx]\<close>, \<open>None\<close> being \<open>undefined\<close>.\<close>

definition card_at :: "'a list \<Rightarrow> int option \<Rightarrow> 'a option" where
  "card_at cs r =
     (case r of None \<Rightarrow> None
      | Some k \<Rightarrow> if 0 \<le> k \<and> nat k < length cs then Some (cs ! nat k) else None)"

section \<open>Playback session\<close>

datatype unit_kind = TermUnit | DescriptionUnit

text \<open>
  What the component asks of the platform, in order: \<open>a.play()\<close> on the element of a
  URL, \<open>speechSynthesis.speak\<close> of an utterance (text, language if set, rate),
  \<open>speechSynthesis.cancel()\<close>, pausing and rewinding every cached element, and the
  calls of \<open>setIndex\<close> with the value they produce.
\<close>

datatype action =
    PlayAudio string
  | Speak unit_kind jsstring "lang option" rat
  | CancelSpeech
  | PauseAudio
  | SetIndex "int option"

text \<open>The state values a closure sees: those of the render that created it.\<close>

record render =
  r_isPlaying :: bool
  r_isUnlocked :: bool
  r_preferAudio :: bool
  r_readDescription :: bool
  r_ttsRate :: rat
  r_cards :: "card list"

text \<open>
  The callbacks bound to platform objects: the \<open>onEnd\<close> closure of
  \<open>playAudioWithRepeat\<close>, the one of \<open>speakWithRepeat\<close>, and the \<open>onend\<close>/\<open>onerror\<close>
  closure of the description utterance.
\<close>

datatype cont =
    AudioUnitEnd card render
  | SpeechUnitEnd card render
  | DescriptionEnd render

text \<open>
  \<open>audioCache\<close> holds, per URL, the \<open>onended\<close> and \<open>onerror\<close> slots of the element
  (no element and an element without handlers behave alike); \<open>plays\<close> holds the
  \<open>catch\<close> handler of every promise returned by \<open>a.play()\<close>, in call order, until it
  has run; \<open>utts\<close> holds the \<open>onend\<close> and \<open>onerror\<close> slots of every utterance, in
  creation order. \<open>trace\<close> records the actions of the session, oldest first.

  Left out, since playback does not depend on them: the view, \<open>hideTerm\<close>,
  \<open>tempRevealId\<close> and \<open>intervalMs\<close>, the refs \<open>currentUtterRef\<close>, \<open>lastSpokenIdRef\<close>
  and \<open>advanceTimerRef\<close> (written or cleared but never read to a decision), the choice
  of a voice, and \<open>prefetchAudio\<close>, which creates elements without handlers. The catalog
  of folders is fixed during a session; loading and editing it is not modelled.
\<close>

record session =
  folders :: "folder list"
  selectedFolderId :: "int option"
  index :: "int option"
  isPlaying :: bool
  isUnlocked :: bool
  shuffle :: bool
  ttsRate :: rat
  repeatCount :: rat
  preferAudio :: bool
  readDescription :: bool
  repeatRemainRef :: rat
  orderRef :: "nat list"
  audioCache :: "string \<Rightarrow> cont option \<times> cont option"
  plays :: "cont option list"
  utts :: "(cont option \<times> cont option) list"
  trace :: "action list"

text \<open>\<open>combinedFolders.find((f) => f.id === selectedFolderId) ?? combinedFolders[0] ?? null\<close>\<close>

definition selectedFolder :: "session \<Rightarrow> folder option" where
  "selectedFolder s =
     (case find (\<lambda>f. Some (folder_id f) = selectedFolderId s) (folders s) of
        Some f \<Rightarrow> Some f
      | None \<Rightarrow> (case folders s of [] \<Rightarrow> None | f # _ \<Rightarrow> Some f))"

definition cards :: "session \<Rightarrow> card list" where
  "cards s = (case selectedFolder s of None \<Rightarrow> [] | Some f \<Rightarrow> folder_cards f)"

definition render_of :: "session \<Rightarrow> render" where
  "render_of s =
     \<lparr>r_isPlaying = isPlaying s, r_isUnlocked = isUnlocked s, r_preferAudio = preferAudio s,
      r_readDescription = readDescription s, r_ttsRate = ttsRate s, r_cards = cards s\<rparr>"

text \<open>
  \<open>cards.length ? logicalIndexToReal(index % cards.length) : 0\<close>, then \<open>cards[realIdx]\<close>.
\<close>

definition currentCard :: "session \<Rightarrow> card option" where
  "currentCard s =
     (let cs = cards s;
          realIdx = (if cs \<noteq> [] then logicalIndexToReal (orderRef s) (js_rem (index s) (int (length cs)))
                     else Some 0)
      in card_at cs realIdx)"

subsection \<open>Settings\<close>

text \<open>
  \<open>loadNumber\<close> and \<open>loadBool\<close>. The stored number is given by what \<open>Number(v)\<close> makes
  of the stored text: \<open>None\<close> when the key is absent or empty or the text is not a
  finite number.
\<close>

definition loadNumber :: "rat option \<Rightarrow> rat \<Rightarrow> rat" where
  "loadNumber v fallback = (case v of None \<Rightarrow> fallback | Some n \<Rightarrow> n)"

definition loadBool :: "string option \<Rightarrow> bool \<Rightarrow> bool" where
  "loadBool v fallback = (case v of None \<Rightarrow> fallback | Some t \<Rightarrow> t = ''true'')"

text \<open>\<open>Math.max(1, Math.min(5, x))\<close>\<close>

definition clampRepeat :: "rat \<Rightarrow> rat" where
  "clampRepeat x = max 1 (min 5 x)"

subsection \<open>Playback units\<close>

text \<open>\<open>setIndex((prev) => (prev + 1) % cards.length)\<close>, with the \<open>cards\<close> of the closure.\<close>

definition setIndexNext :: "render \<Rightarrow> session \<Rightarrow> session" where
  "setIndexNext r s =
     (let v = js_rem (js_add (index s) 1) (int (length (r_cards r)))
      in s\<lparr>index := v, trace := trace s @ [SetIndex v]\<rparr>)"

text \<open>
  \<open>playAudioOnce\<close>: the handlers of the element are cleared and bound anew, then
  \<open>a.play().catch(() => onEnd())\<close>.
\<close>

definition playAudioOnce :: "card \<Rightarrow> cont \<Rightarrow> session \<Rightarrow> session" where
  "playAudioOnce c onEnd s =
     (let url = audioUrlOf c
      in s\<lparr>audioCache := (audioCache s)(url := (Some onEnd, Some onEnd)),
           plays := plays s @ [Some onEnd],
           trace := trace s @ [PlayAudio url]\<rparr>)"

definition playAudioWithRepeat :: "render \<Rightarrow> card \<Rightarrow> session \<Rightarrow> session" where
  "playAudioWithRepeat r c s = playAudioOnce c (AudioUnitEnd c r) s"

text \<open>\<open>card.tts?.rate ?? ttsRate\<close>\<close>

definition rate_of :: "render \<Rightarrow> card \<Rightarrow> rat" where
  "rate_of r c =
     (case card_tts c of None \<Rightarrow> r_ttsRate r
      | Some t \<Rightarrow> (case tts_rate t of None \<Rightarrow> r_ttsRate r | Some x \<Rightarrow> x))"

text \<open>The inner \<open>speakOnce\<close> of \<open>playRecordedOrTTS\<close>: only \<open>onend\<close> is bound.\<close>

definition speakOnce :: "render \<Rightarrow> card \<Rightarrow> cont \<Rightarrow> session \<Rightarrow> session" where
  "speakOnce r c onEnd s =
     s\<lparr>utts := utts s @ [(Some onEnd, None)],
       trace := trace s @ [Speak TermUnit (card_term c) (lang_of c) (rate_of r c)]\<rparr>"

definition speakWithRepeat :: "render \<Rightarrow> card \<Rightarrow> session \<Rightarrow> session" where
  "speakWithRepeat r c s = speakOnce r c (SpeechUnitEnd c r) s"

text \<open>
  \<open>String.prototype.trim\<close>: white space and line terminators of ECMAScript, as code
  units.
\<close>

definition js_space :: "nat \<Rightarrow> bool" where
  "js_space u =
     ((9 \<le> u \<and> u \<le> 13) \<or> u = 32 \<or> u = 160 \<or> u = 5760 \<or> (8192 \<le> u \<and> u \<le> 8202)
      \<or> u = 8232 \<or> u = 8233 \<or> u = 8239 \<or> u = 8287 \<or> u = 12288 \<or> u = 65279)"

definition js_trim :: "jsstring \<Rightarrow> jsstring" where
  "js_trim t = rev (dropWhile js_space (rev (dropWhile js_space t)))"

text \<open>
  \<open>speakDescriptionThenNext\<close>. The utterance's language is the constant \<open>"ko-KR"\<close>;
  the choice of a voice is left to the platform. \<open>onend\<close> and \<open>onerror\<close> get the same
  closure.
\<close>

definition descriptionText :: "card \<Rightarrow> jsstring" where
  "descriptionText c = js_trim (case card_description c of None \<Rightarrow> [] | Some d \<Rightarrow> d)"

definition speakDescriptionThenNext :: "render \<Rightarrow> card \<Rightarrow> session \<Rightarrow> session" where
  "speakDescriptionThenNext r c s =
     (let text = descriptionText c
      in if text = [] then (if r_isPlaying r then setIndexNext r s else s)
         else s\<lparr>utts := utts s @ [(Some (DescriptionEnd r), Some (DescriptionEnd r))],
                trace := trace s @ [CancelSpeech, Speak DescriptionUnit text (Some KoKR) (rate_of r c)]\<rparr>)"

subsection \<open>Repeat controller\<close>

definition advanceOrRepeat ::
    "(session \<Rightarrow> session) \<Rightarrow> (session \<Rightarrow> session) \<Rightarrow> session \<Rightarrow> session" where
  "advanceOrRepeat onRepeat onDone s =
     (if repeatRemainRef s > 1
      then onRepeat (s\<lparr>repeatRemainRef := repeatRemainRef s - 1\<rparr>)
      else onDone s)"

text \<open>The \<open>onDone\<close> closure shared by the audio and the speech path.\<close>

definition termDone :: "render \<Rightarrow> card \<Rightarrow> session \<Rightarrow> session" where
  "termDone r c s =
     (if r_readDescription r then speakDescriptionThenNext r c s
      else if r_isPlaying r then setIndexNext r s
      else s)"

text \<open>Running a bound callback.\<close>

fun fire :: "cont \<Rightarrow> session \<Rightarrow> session" where
  "fire (AudioUnitEnd c r) s = advanceOrRepeat (playAudioWithRepeat r c) (termDone r c) s"
| "fire (SpeechUnitEnd c r) s = advanceOrRepeat (speakWithRepeat r c) (termDone r c) s"
| "fire (DescriptionEnd r) s = (if r_isPlaying r then setIndexNext r s else s)"

text \<open>
  \<open>playRecordedOrTTS\<close>. \<open>advanceTimerRef\<close> is never set, so clearing it does nothing;
  the platform calls are taken not to throw, so the \<open>catch\<close> that falls back to speech
  is not entered.
\<close>

definition playRecordedOrTTS :: "render \<Rightarrow> card \<Rightarrow> session \<Rightarrow> session" where
  "playRecordedOrTTS r c s =
     (if \<not> r_isUnlocked r then s
      else if r_preferAudio r
      then playAudioWithRepeat r c (s\<lparr>trace := trace s @ [CancelSpeech]\<rparr>)
      else speakWithRepeat r c (s\<lparr>trace := trace s @ [CancelSpeech]\<rparr>))"

subsection \<open>Transport handlers\<close>

definition next_card :: "session \<Rightarrow> session" where
  "next_card s =
     (if cards s = [] then s
      else (let v = js_rem (js_add (index s) 1) (int (length (cards s)))
            in s\<lparr>index := v, trace := trace s @ [SetIndex v]\<rparr>))"

definition prev_card :: "session \<Rightarrow> session" where
  "prev_card s =
     (if cards s = [] then s
      else (let v = js_rem (js_add (js_add (index s) (- 1)) (int (length (cards s))))
                           (int (length (cards s)))
            in s\<lparr>index := v, trace := trace s @ [SetIndex v]\<rparr>))"

definition unlockAudio :: "session \<Rightarrow> session" where
  "unlockAudio s = s\<lparr>isUnlocked := True\<rparr>"

text \<open>The two branches of the play/pause button.\<close>

definition pauseBranch :: "session \<Rightarrow> session" where
  "pauseBranch s =
     s\<lparr>isPlaying := False,
       audioCache := (\<lambda>url. (None, None)),
       trace := trace s @ [CancelSpeech, PauseAudio]\<rparr>"

definition resumeBranch :: "session \<Rightarrow> session" where
  "resumeBranch s =
     (let s1 = s\<lparr>isPlaying := True, repeatRemainRef := repeatCount s\<rparr>
      in case currentCard s of None \<Rightarrow> s1 | Some c \<Rightarrow> playRecordedOrTTS (render_of s) c s1)"

definition playPauseClick :: "session \<Rightarrow> session" where
  "playPauseClick s = (if isPlaying s then pauseBranch s else resumeBranch s)"

definition replayClick :: "session \<Rightarrow> session" where
  "replayClick s =
     (case currentCard s of None \<Rightarrow> s
      | Some c \<Rightarrow> playRecordedOrTTS (render_of s) c (s\<lparr>repeatRemainRef := repeatCount s\<rparr>))"

definition openFolder :: "int \<Rightarrow> bool \<Rightarrow> session \<Rightarrow> session" where
  "openFolder fid autoplay s =
     s\<lparr>selectedFolderId := Some fid, index := Some 0, isPlaying := autoplay,
       trace := trace s @ [SetIndex (Some 0)]\<rparr>"

definition backToLibrary :: "session \<Rightarrow> session" where
  "backToLibrary s = s\<lparr>isPlaying := False\<rparr>"

subsection \<open>Effects\<close>

definition orderEffect :: "(nat \<Rightarrow> rat) \<Rightarrow> session \<Rightarrow> session" where
  "orderEffect rnd s = s\<lparr>orderRef := reorder rnd (shuffle s) (cards s)\<rparr>"

definition resetEffect :: "session \<Rightarrow> session" where
  "resetEffect s = s\<lparr>repeatRemainRef := repeatCount s\<rparr>"

definition playEffect :: "session \<Rightarrow> session" where
  "playEffect s =
     (if \<not> isPlaying s then s
      else if cards s = [] then s
      else (case card_at (cards s)
                   (logicalIndexToReal (orderRef s) (js_rem (index s) (int (length (cards s))))) of
              None \<Rightarrow> s
            | Some c \<Rightarrow> playRecordedOrTTS (render_of s) c s))"

text \<open>
  After a handler has run, React renders again and runs, in the order of their
  declaration, the effects whose dependencies differ from those of the previous render:
  the order effect on \<open>[cards, shuffle]\<close>, the counter reset on
  \<open>[index, selectedFolderId, repeatCount]\<close>, the play effect on
  \<open>[index, cards, ttsRate, preferAudio, isPlaying]\<close>. The catalog is fixed here, so the
  \<open>cards\<close> array is another one exactly when the selected folder is.
\<close>

definition commit :: "(nat \<Rightarrow> rat) \<Rightarrow> session \<Rightarrow> session \<Rightarrow> session" where
  "commit rnd old new =
     (let s1 = (if selectedFolder new \<noteq> selectedFolder old \<or> shuffle new \<noteq> shuffle old
                then orderEffect rnd new else new);
          s2 = (if index new \<noteq> index old \<or> selectedFolderId new \<noteq> selectedFolderId old
                   \<or> repeatCount new \<noteq> repeatCount old
                then resetEffect s1 else s1);
          s3 = (if index new \<noteq> index old \<or> selectedFolder new \<noteq> selectedFolder old
                   \<or> ttsRate new \<noteq> ttsRate old \<or> preferAudio new \<noteq> preferAudio old
                   \<or> isPlaying new \<noteq> isPlaying old
                then playEffect s2 else s2)
      in s3)"

subsection \<open>Events\<close>

datatype event =
    AudioEnded string
  | AudioError string
  | PlayRejected nat
  | UtterEnd nat
  | UtterError nat
  | ClickNext
  | ClickPrev
  | ClickPlayPause
  | ClickReplay
  | ClickUnlock
  | SetRepeatCount rat
  | SetShuffle bool "nat \<Rightarrow> rat"
  | SetPreferAudio bool
  | SetReadDescription bool
  | SetTtsRate rat
  | OpenFolder int bool "nat \<Rightarrow> rat"
  | BackToLibrary

text \<open>
  The handler an event runs. A platform event runs the callback in its slot, if one is
  bound; the \<open>catch\<close> of a promise runs at most once.
\<close>

definition run_slot :: "cont option \<Rightarrow> session \<Rightarrow> session" where
  "run_slot k s = (case k of None \<Rightarrow> s | Some c \<Rightarrow> fire c s)"

fun deliver :: "event \<Rightarrow> session \<Rightarrow> session" where
  "deliver (AudioEnded url) s = run_slot (fst (audioCache s url)) s"
| "deliver (AudioError url) s = run_slot (snd (audioCache s url)) s"
| "deliver (PlayRejected n) s =
     (if n < length (plays s) then run_slot (plays s ! n) (s\<lparr>plays := (plays s)[n := None]\<rparr>)
      else s)"
| "deliver (UtterEnd n) s = (if n < length (utts s) then run_slot (fst (utts s ! n)) s else s)"
| "deliver (UtterError n) s = (if n < length (utts s) then run_slot (snd (utts s ! n)) s else s)"
| "deliver ClickNext s = next_card s"
| "deliver ClickPrev s = prev_card s"
| "deliver ClickPlayPause s = playPauseClick s"
| "deliver ClickReplay s = replayClick s"
| "deliver ClickUnlock s = unlockAudio s"
| "deliver (SetRepeatCount v) s = s\<lparr>repeatCount := clampRepeat v\<rparr>"
| "deliver (SetShuffle b rnd) s = s\<lparr>shuffle := b\<rparr>"
| "deliver (SetPreferAudio b) s = s\<lparr>preferAudio := b\<rparr>"
| "deliver (SetReadDescription b) s = s\<lparr>readDescription := b\<rparr>"
| "deliver (SetTtsRate v) s = s\<lparr>ttsRate := v\<rparr>"
| "deliver (OpenFolder fid autoplay rnd) s = openFolder fid autoplay s"
| "deliver BackToLibrary s = backToLibrary s"

fun random_of :: "event \<Rightarrow> nat \<Rightarrow> rat" where
  "random_of (SetShuffle b rnd) = rnd"
| "random_of (OpenFolder fid autoplay rnd) = rnd"
| "random_of e = (\<lambda>k. 0)"

definition step :: "event \<Rightarrow> session \<Rightarrow> session" where
  "step e s = commit (random_of e) s (deliver e s)"

definition run :: "event list \<Rightarrow> session \<Rightarrow> session" where
  "run es s = foldl (\<lambda>t e. step e t) s es"

text \<open>
  The session after mounting: the initial state from storage, then every effect once.
  No card plays, since \<open>isPlaying\<close> starts false.
\<close>

record storage =
  st_shuffle :: "string option"
  st_rate :: "rat option"
  st_repeat :: "rat option"
  st_readDesc :: "string option"
  st_lastFolder :: "int option"

definition mount :: "folder list \<Rightarrow> storage \<Rightarrow> (nat \<Rightarrow> rat) \<Rightarrow> session" where
  "mount fs st rnd =
     (let n = clampRepeat (loadNumber (st_repeat st) 1);
          s0 = \<lparr>folders = fs, selectedFolderId = st_lastFolder st, index = Some 0,
                isPlaying = False, isUnlocked = False,
                shuffle = loadBool (st_shuffle st) False,
                ttsRate = loadNumber (st_rate st) 1,
                repeatCount = n, preferAudio = True,
                readDescription = loadBool (st_readDesc st) False,
                repeatRemainRef = n, orderRef = [],
                audioCache = (\<lambda>url. (None, None)), plays = [], utts = [], trace = []\<rparr>
      in playEffect (resetEffect (orderEffect rnd s0)))"

subsection \<open>The built-in sample catalog\<close>

text \<open>\<open>SAMPLE_FOLDERS\<close>, texts as code units.\<close>

definition ascii :: "string \<Rightarrow> jsstring" where
  "ascii t = map of_char t"

definition SAMPLE_FOLDERS :: "folder list" where
  "SAMPLE_FOLDERS =
     [\<lparr>folder_id = 100,
       folder_name = [49368, 54540, 32, 40, 54620, 44544, 41],
       folder_cards =
         [\<lparr>card_id = SafeInt (Abs_safe_int 1), card_term = [49324, 44284], card_description = Some [],
           card_imageUrl = Some (ascii ''https://images.unsplash.com/photo-1567306226416-28f0efdc88ce?q=80&w=800&auto=format&fit=crop''),
           card_tts = Some \<lparr>tts_lang = Some KoKR, tts_rate = None\<rparr>\<rparr>,
          \<lparr>card_id = SafeInt (Abs_safe_int 2), card_term = [48148, 45208, 45208], card_description = Some [],
           card_imageUrl = Some (ascii ''https://images.unsplash.com/photo-1571772805064-207c8435df79?q=80&w=800&auto=format&fit=crop''),
           card_tts = Some \<lparr>tts_lang = Some KoKR, tts_rate = None\<rparr>\<rparr>]\<rparr>]"

text \<open>Empty storage: every setting takes its fallback.\<close>

definition empty_storage :: storage where
  "empty_storage =
     \<lparr>st_shuffle = None, st_rate = None, st_repeat = None, st_readDesc = None,
      st_lastFolder = None\<rparr>"

subsection \<open>Reading the trace\<close>

text \<open>The actions that start a playback unit.\<close>

fun starts_playback :: "action \<Rightarrow> bool" where
  "starts_playback (PlayAudio url) = True"
| "starts_playback (Speak k t l r) = True"
| "starts_playback a = False"

text \<open>A folder without cards, as the card panel leaves none behind but a catalog may hold.\<close>

definition EMPTY_DECK :: "folder list" where
  "EMPTY_DECK = [\<lparr>folder_id = 1, folder_name = [], folder_cards = []\<rparr>]"

text \<open>A source of draws for sessions that never shuffle.\<close>

definition no_draws :: "nat \<Rightarrow> rat" where
  "no_draws k = 0"

subsection \<open>A well-behaved platform\<close>

text \<open>
  Running handlers without the effects that follow a render, to look at what one
  callback does by itself.
\<close>

definition feed :: "event list \<Rightarrow> session \<Rightarrow> session" where
  "feed es s = foldl (\<lambda>t e. deliver e t) s es"

text \<open>The action that starts one unit of the term of a card.\<close>

definition term_unit :: "render \<Rightarrow> card \<Rightarrow> action" where
  "term_unit r c =
     (if r_preferAudio r then PlayAudio (audioUrlOf c)
      else Speak TermUnit (card_term c) (lang_of c) (rate_of r c))"

text \<open>
  The events by which the platform reports the natural end of the first \<open>n\<close> term units
  of a card whose playback starts in session \<open>s\<close>: the \<open>ended\<close> event of the card's
  audio element each time, or the \<open>end\<close> events of the utterances created from then on.
\<close>

definition term_completions :: "render \<Rightarrow> card \<Rightarrow> session \<Rightarrow> nat \<Rightarrow> event list" where
  "term_completions r c s n =
     (if r_preferAudio r then replicate n (AudioEnded (audioUrlOf c))
      else map UtterEnd [length (utts s)..<length (utts s) + n])"

text \<open>
  Inputs for examples: the two sample cards, a storage that asks for two repeats, and
  the closure values of a render of the sample deck while it plays, with audio
  preferred or with speech.
\<close>

definition SAMPLE_CARD :: card where
  "SAMPLE_CARD = hd (folder_cards (hd SAMPLE_FOLDERS))"

definition SECOND_SAMPLE_CARD :: card where
  "SECOND_SAMPLE_CARD = folder_cards (hd SAMPLE_FOLDERS) ! 1"

definition repeat2_storage :: storage where
  "repeat2_storage = empty_storage\<lparr>st_repeat := Some 2\<rparr>"

definition playing_render :: "bool \<Rightarrow> bool \<Rightarrow> render" where
  "playing_render audio readDesc =
     \<lparr>r_isPlaying = True, r_isUnlocked = True, r_preferAudio = audio,
      r_readDescription = readDesc, r_ttsRate = 1,
      r_cards = folder_cards (hd SAMPLE_FOLDERS)\<rparr>"

text \<open>
  A deck of two cards, the first with the description \<open>test\<close> and an English speech
  hint, the second with neither.
\<close>

definition TEST_DECK :: "folder list" where
  "TEST_DECK =
     [\<lparr>folder_id = 7, folder_name = ascii ''deck'',
       folder_cards =
         [\<lparr>card_id = SafeInt (Abs_safe_int 1), card_term = ascii ''apple'', card_description = Some (ascii ''test''),
           card_imageUrl = None, card_tts = Some \<lparr>tts_lang = Some EnUS, tts_rate = None\<rparr>\<rparr>,
          \<lparr>card_id = SafeInt (Abs_safe_int 2), card_term = ascii ''pear'', card_description = None,
           card_imageUrl = None, card_tts = None\<rparr>]\<rparr>]"

definition TEST_CARD :: card where
  "TEST_CARD = hd (folder_cards (hd TEST_DECK))"

text \<open>A storage in which reading the description is switched on.\<close>

definition readDesc_storage :: storage where
  "readDesc_storage = empty_storage\<lparr>st_readDesc := Some ''true''\<rparr>"

subsection \<open>Invariants\<close>

text \<open>Nothing has been played or spoken, and no callback is bound anywhere.\<close>

definition nothing_started :: "session \<Rightarrow> bool" where
  "nothing_started s =
     (filter starts_playback (trace s) = [] \<and> audioCache s = (\<lambda>url. (None, None))
      \<and> plays s = [] \<and> utts s = [])"

text \<open>
  The bounds of the repeat counter: positive and at most 5, the configured count within
  [1,5], and a whole-numbered configured count makes the counter a whole number of at
  least 1.
\<close>

definition counter_inv :: "session \<Rightarrow> bool" where
  "counter_inv s =
     (0 < repeatRemainRef s \<and> repeatRemainRef s \<le> 5
      \<and> 1 \<le> repeatCount s \<and> repeatCount s \<le> 5
      \<and> (repeatCount s \<in> \<int> \<longrightarrow> repeatRemainRef s \<in> \<int> \<and> 1 \<le> repeatRemainRef s))"

text \<open>A storage whose repeat count was not written by the player: one and a half.\<close>

definition fractional_storage :: storage where
  "fractional_storage = empty_storage\<lparr>st_repeat := Some (3 / 2)\<rparr>"

section \<open>The audio locator\<close>

lemma digit_char_unreserved: "d < 10 \<Longrightarrow> uri_unreserved (digit_char d)"
proof -
  assume "d < 10"
  then have "d \<in> {0, 1, 2, 3, 4, 5, 6, 7, 8, 9}"
    by auto
  then show ?thesis
    by (auto simp add: digit_char_def uri_unreserved_def)
qed

lemma dec_digits_lt10: "n < 10 \<Longrightarrow> dec_digits n = [digit_char n]"
  by (subst dec_digits.simps) simp

lemma dec_digits_ge10:
  "10 \<le> n \<Longrightarrow> dec_digits n = dec_digits (n div 10) @ [digit_char (n mod 10)]"
  by (subst dec_digits.simps) simp

lemma dec_digits_unreserved: "c \<in> set (dec_digits n) \<Longrightarrow> uri_unreserved c"
proof (induction n arbitrary: c rule: dec_digits.induct)
  case (1 n)
  show ?case
  proof (cases "n < 10")
    case True
    with 1(2) show ?thesis
      by (simp add: dec_digits_lt10 digit_char_unreserved)
  next
    case False
    with 1(2) have "c \<in> set (dec_digits (n div 10)) \<or> c = digit_char (n mod 10)"
      by (auto simp add: dec_digits_ge10)
    then show ?thesis
      using 1(1) False by (auto simp add: digit_char_unreserved)
  qed
qed

lemma js_String_unreserved: "c \<in> set (js_String (SafeInt n)) \<Longrightarrow> uri_unreserved c"
proof -
  let ?i = "Rep_safe_int n"
  assume "c \<in> set (js_String (SafeInt n))"
  then have "c = CHR ''-'' \<or> c \<in> set (dec_digits (nat (- ?i))) \<or> c \<in> set (dec_digits (nat ?i))"
    by (auto simp add: js_String_def Let_def split: if_splits)
  moreover have "uri_unreserved CHR ''-''"
    by (simp add: uri_unreserved_def)
  ultimately show ?thesis
    using dec_digits_unreserved by blast
qed

lemma Rep_Abs_safe_int:
  "- (2 ^ 53 - 1) \<le> i \<Longrightarrow> i \<le> 2 ^ 53 - 1 \<Longrightarrow> Rep_safe_int (Abs_safe_int i) = i"
  by (simp add: Abs_safe_int_inverse)

lemma small_ids:
  "Rep_safe_int (Abs_safe_int 1) = 1" "Rep_safe_int (Abs_safe_int 2) = 2"
  "Rep_safe_int (Abs_safe_int 7) = 7"
  by (simp_all add: Rep_Abs_safe_int)

lemma lang_tag_unreserved: "c \<in> set (lang_tag l) \<Longrightarrow> uri_unreserved c"
  by (cases l) (auto simp add: uri_unreserved_def)

lemma encode_unreserved: "(\<And>c. c \<in> set s \<Longrightarrow> uri_unreserved c) \<Longrightarrow> encodeURIComponent s = s"
  by (induction s) (simp_all add: encodeURIComponent_def)

lemma audioFileName_eq:
  "audioFileName c =
     padStart 4 CHR ''0'' (js_String (card_id c)) @ ''_''
       @ lang_tag (case lang_of c of None \<Rightarrow> KoKR | Some l \<Rightarrow> l) @ ''.mp3''"
  by (simp add: audioFileName_def split: option.splits)

lemma padStart_set: "x \<in> set (padStart n c s) \<Longrightarrow> x = c \<or> x \<in> set s"
  by (auto simp add: padStart_def)

lemma suffix_unreserved: "x \<in> set ''_'' \<or> x \<in> set ''.mp3'' \<Longrightarrow> uri_unreserved x"
  by (auto simp add: uri_unreserved_def)

lemma audioFileName_unreserved:
  assumes "card_id c = SafeInt n" "x \<in> set (audioFileName c)"
  shows "uri_unreserved x"
proof -
  let ?l = "case lang_of c of None \<Rightarrow> KoKR | Some l \<Rightarrow> l"
  from assms(2)
  have "x \<in> set (padStart 4 CHR ''0'' (js_String (card_id c))) \<or> x \<in> set ''_''
      \<or> x \<in> set (lang_tag ?l) \<or> x \<in> set ''.mp3''"
    unfolding audioFileName_eq set_append by blast
  then consider "x = CHR ''0''" | "x \<in> set (js_String (SafeInt n))"
    | "x \<in> set (lang_tag ?l)" | "x \<in> set ''_'' \<or> x \<in> set ''.mp3''"
    using padStart_set assms(1) by metis
  then show ?thesis
  proof cases
    case 1 then show ?thesis by (simp add: uri_unreserved_def)
  next
    case 2 then show ?thesis by (rule js_String_unreserved)
  next
    case 3 then show ?thesis by (rule lang_tag_unreserved)
  next
    case 4 then show ?thesis by (rule suffix_unreserved)
  qed
qed

lemma digit0: "digit_char 0 = CHR ''0''"
  by (simp add: digit_char_def)

lemma rep3: "replicate 3 c = [c, c, c]" and rep2: "replicate 2 c = [c, c]"
  by (simp_all add: numeral_eq_Suc)

lemma pad4_1: "n < 10 \<Longrightarrow> padStart 4 CHR ''0'' (dec_digits n) = zero_padded4 n"
  by (simp add: dec_digits_lt10 padStart_def zero_padded4_def digit0 rep3)

lemma pad4_2:
  assumes "10 \<le> n" "n < 100"
  shows "padStart 4 CHR ''0'' (dec_digits n) = zero_padded4 n"
proof -
  have "n div 10 < 10" using assms by simp
  then have "dec_digits n = [digit_char (n div 10), digit_char (n mod 10)]"
    using assms by (simp add: dec_digits_ge10 dec_digits_lt10)
  moreover have "n div 1000 = 0" "n div 100 = 0" using assms by simp_all
  ultimately show ?thesis
    by (simp add: padStart_def zero_padded4_def digit0 rep2)
qed

lemma pad4_3:
  assumes "100 \<le> n" "n < 1000"
  shows "padStart 4 CHR ''0'' (dec_digits n) = zero_padded4 n"
proof -
  have a: "10 \<le> n div 10" "n div 10 < 100" using assms by simp_all
  have "dec_digits (n div 10) = [digit_char (n div 10 div 10), digit_char (n div 10 mod 10)]"
    using a by (simp add: dec_digits_ge10 dec_digits_lt10)
  moreover have "n div 10 div 10 = n div 100" by (simp add: div_mult2_eq[symmetric])
  ultimately have "dec_digits n = [digit_char (n div 100), digit_char (n div 10 mod 10), digit_char (n mod 10)]"
    using assms by (simp add: dec_digits_ge10)
  moreover have "n div 1000 = 0" "n div 100 mod 10 = n div 100" using assms by simp_all
  ultimately show ?thesis
    by (simp add: padStart_def zero_padded4_def digit0)
qed

lemma pad4_4:
  assumes "1000 \<le> n" "n < 10000"
  shows "padStart 4 CHR ''0'' (dec_digits n) = zero_padded4 n"
proof -
  have a: "100 \<le> n div 10" "n div 10 < 1000" using assms by simp_all
  have b: "10 \<le> n div 10 div 10" "n div 10 div 10 < 10 * 10" using a by simp_all
  have c: "n div 10 div 10 = n div 100" "n div 100 div 10 = n div 1000"
    by (simp_all add: div_mult2_eq[symmetric])
  have "dec_digits (n div 100) = [digit_char (n div 1000), digit_char (n div 100 mod 10)]"
    using b c by (simp add: dec_digits_ge10 dec_digits_lt10)
  then have "dec_digits (n div 10) = [digit_char (n div 1000), digit_char (n div 100 mod 10), digit_char (n div 10 mod 10)]"
    using a c by (simp add: dec_digits_ge10)
  then have "dec_digits n = [digit_char (n div 1000), digit_char (n div 100 mod 10), digit_char (n div 10 mod 10), digit_char (n mod 10)]"
    using assms by (simp add: dec_digits_ge10)
  moreover have "n div 1000 mod 10 = n div 1000" using assms by simp
  ultimately show ?thesis
    by (simp add: padStart_def zero_padded4_def)
qed

lemma pad4: "n < 10000 \<Longrightarrow> padStart 4 CHR ''0'' (dec_digits n) = zero_padded4 n"
  using pad4_1 pad4_2 pad4_3 pad4_4 by (metis not_le)

lemma encode_reserved:
  "encodeURIComponent ''1e+21_ko-KR.mp3'' = ''1e%2B21_ko-KR.mp3''"
  "encodeURIComponent ''/audio/'' = ''%2Faudio%2F''"
  by (simp_all add: encodeURIComponent_def uri_unreserved_def pct_encode_def hex_char_def)

lemma more_ids:
  "Rep_safe_int (Abs_safe_int 12345) = 12345" "Rep_safe_int (Abs_safe_int (- 5)) = - 5"
  by (simp_all add: Rep_Abs_safe_int)

lemma long_and_negative_ids:
  "audioUrlOf \<lparr>card_id = SafeInt (Abs_safe_int 12345), card_term = [], card_description = None,
                card_imageUrl = None, card_tts = None\<rparr> = ''/audio/12345_ko-KR.mp3''"
  "audioUrlOf \<lparr>card_id = SafeInt (Abs_safe_int (- 5)), card_term = [], card_description = None,
                card_imageUrl = None,
                card_tts = Some \<lparr>tts_lang = Some EnUS, tts_rate = None\<rparr>\<rparr>
     = ''/audio/00-5_en-US.mp3''"
proof -
  let ?a = "\<lparr>card_id = SafeInt (Abs_safe_int 12345), card_term = [], card_description = None,
                card_imageUrl = None, card_tts = None\<rparr>"
  let ?b = "\<lparr>card_id = SafeInt (Abs_safe_int (- 5)), card_term = [], card_description = None,
                card_imageUrl = None,
                card_tts = Some \<lparr>tts_lang = Some EnUS, tts_rate = None\<rparr>\<rparr>"
  have d: "dec_digits 12345 = ''12345''" "dec_digits 5 = ''5''"
    by (simp_all add: dec_digits_ge10 dec_digits_lt10 digit_char_def)
  have a: "audioFileName ?a = ''12345_ko-KR.mp3''"
    by (simp add: audioFileName_def lang_of_def js_String_def more_ids d padStart_def)
  have b: "audioFileName ?b = ''00-5_en-US.mp3''"
    by (simp add: audioFileName_def lang_of_def js_String_def more_ids d padStart_def rep2)
  show "audioUrlOf ?a = ''/audio/12345_ko-KR.mp3''"
    unfolding audioUrlOf_def a by (simp add: encodeURIComponent_def uri_unreserved_def)
  show "audioUrlOf ?b = ''/audio/00-5_en-US.mp3''"
    unfolding audioUrlOf_def b by (simp add: encodeURIComponent_def uri_unreserved_def)
qed

text \<open>
  Claim C9. The recorded-audio URL of a card is the directory \<open>/audio/\<close>, left as it
  is, followed by the percent-encoding of the file name; the file name is the text of the
  identity padded on the left with zeros to four characters, an underscore, the language
  tag (\<open>ko-KR\<close> when the card has no speech hint) and \<open>.mp3\<close>. For an integer
  identity from 0 to 9999 the file name is the four-digit name of the specification, and
  for every safe integer percent-encoding changes no character of the file name. Padding
  never shortens: the identity 12345 gives \<open>/audio/12345_ko-KR.mp3\<close>, and it counts the
  minus sign: the identity -5 with the English hint gives \<open>/audio/00-5_en-US.mp3\<close>. The
  encoding does its work on the file name alone: the identity \<open>1e21\<close>, whose text is
  \<open>1e+21\<close>, gives \<open>/audio/1e%2B21_ko-KR.mp3\<close>, while the directory keeps its slashes,
  which the encoding would have replaced.
\<close>

theorem audio_url_convention:
  "audioUrlOf c = ''/audio/'' @ encodeURIComponent (audioFileName c)
   \<and> audioFileName c =
       padStart 4 CHR ''0'' (js_String (card_id c)) @ ''_''
         @ lang_tag (case lang_of c of None \<Rightarrow> KoKR | Some l \<Rightarrow> l) @ ''.mp3''
   \<and> (\<forall>n. card_id c = SafeInt n \<and> 0 \<le> Rep_safe_int n \<and> Rep_safe_int n < 10000 \<longrightarrow>
        audioFileName c
          = spec_audio_file (nat (Rep_safe_int n))
              (case lang_of c of None \<Rightarrow> KoKR | Some l \<Rightarrow> l)
        \<and> audioUrlOf c
          = ''/audio/'' @ spec_audio_file (nat (Rep_safe_int n))
              (case lang_of c of None \<Rightarrow> KoKR | Some l \<Rightarrow> l))
   \<and> (\<forall>n. card_id c = SafeInt n \<longrightarrow>
        encodeURIComponent (audioFileName c) = audioFileName c)
   \<and> audioUrlOf \<lparr>card_id = SafeInt (Abs_safe_int 12345), card_term = [],
                   card_description = None, card_imageUrl = None, card_tts = None\<rparr>
       = ''/audio/12345_ko-KR.mp3''
   \<and> audioUrlOf \<lparr>card_id = SafeInt (Abs_safe_int (- 5)), card_term = [],
                   card_description = None, card_imageUrl = None,
                   card_tts = Some \<lparr>tts_lang = Some EnUS, tts_rate = None\<rparr>\<rparr>
       = ''/audio/00-5_en-US.mp3''
   \<and> audioFileName \<lparr>card_id = OtherNumber ''1e+21'', card_term = [], card_description = None,
                      card_imageUrl = None, card_tts = None\<rparr> = ''1e+21_ko-KR.mp3''
   \<and> audioUrlOf \<lparr>card_id = OtherNumber ''1e+21'', card_term = [], card_description = None,
                   card_imageUrl = None, card_tts = None\<rparr> = ''/audio/1e%2B21_ko-KR.mp3''
   \<and> encodeURIComponent ''/audio/'' = ''%2Faudio%2F''"
proof -
  let ?l = "case lang_of c of None \<Rightarrow> KoKR | Some l \<Rightarrow> l"
  let ?big = "\<lparr>card_id = OtherNumber ''1e+21'', card_term = [], card_description = None,
               card_imageUrl = None, card_tts = None\<rparr>"
  have 1: "audioUrlOf c = ''/audio/'' @ encodeURIComponent (audioFileName c)"
    by (simp add: audioUrlOf_def)
  have 2: "audioFileName c =
       padStart 4 CHR ''0'' (js_String (card_id c)) @ ''_'' @ lang_tag ?l @ ''.mp3''"
    by (rule audioFileName_eq)
  have 4: "encodeURIComponent (audioFileName c) = audioFileName c" if "card_id c = SafeInt n" for n
    by (rule encode_unreserved) (rule audioFileName_unreserved [OF that])
  have 3: "audioFileName c = spec_audio_file (nat (Rep_safe_int n)) ?l
           \<and> audioUrlOf c = ''/audio/'' @ spec_audio_file (nat (Rep_safe_int n)) ?l"
    if "card_id c = SafeInt n \<and> 0 \<le> Rep_safe_int n \<and> Rep_safe_int n < 10000" for n
  proof -
    from that have "js_String (card_id c) = dec_digits (nat (Rep_safe_int n))"
      and "nat (Rep_safe_int n) < 10000"
      by (auto simp add: js_String_def)
    then have "audioFileName c = spec_audio_file (nat (Rep_safe_int n)) ?l"
      unfolding 2 spec_audio_file_def by (simp add: pad4)
    moreover from that have "encodeURIComponent (audioFileName c) = audioFileName c"
      using 4 by blast
    ultimately show ?thesis
      using 1 by simp
  qed
  have 5: "audioFileName ?big = ''1e+21_ko-KR.mp3''"
    by (simp add: audioFileName_def lang_of_def js_String_def padStart_def)
  have 6: "audioUrlOf ?big = ''/audio/1e%2B21_ko-KR.mp3''"
    unfolding audioUrlOf_def 5 encode_reserved by simp
  from 1 2 3 4 5 6 encode_reserved(2) long_and_negative_ids show ?thesis
    by blast
qed

theorem audio_url_convention_witness:
  "card_id \<lparr>card_id = SafeInt (Abs_safe_int 7), card_term = [], card_description = None,
              card_imageUrl = None, card_tts = None\<rparr> = SafeInt (Abs_safe_int 7)
   \<and> 0 \<le> Rep_safe_int (Abs_safe_int 7) \<and> Rep_safe_int (Abs_safe_int 7) < 10000
   \<and> audioUrlOf \<lparr>card_id = SafeInt (Abs_safe_int 7), card_term = [], card_description = None,
                   card_imageUrl = None, card_tts = None\<rparr> = ''/audio/0007_ko-KR.mp3''"
proof -
  let ?c = "\<lparr>card_id = SafeInt (Abs_safe_int 7), card_term = [], card_description = None,
             card_imageUrl = None, card_tts = None\<rparr>"
  have r: "card_id ?c = SafeInt (Abs_safe_int 7) \<and> 0 \<le> Rep_safe_int (Abs_safe_int 7)
           \<and> Rep_safe_int (Abs_safe_int 7) < 10000"
    by (simp add: small_ids)
  from audio_url_convention [of ?c] r
  have "audioUrlOf ?c
        = ''/audio/'' @ spec_audio_file (nat (Rep_safe_int (Abs_safe_int 7)))
            (case lang_of ?c of None \<Rightarrow> KoKR | Some l \<Rightarrow> l)"
    by blast
  then have "audioUrlOf ?c = ''/audio/'' @ spec_audio_file 7 KoKR"
    by (simp add: lang_of_def small_ids)
  then have "audioUrlOf ?c = ''/audio/0007_ko-KR.mp3''"
    by (simp add: spec_audio_file_def zero_padded4_def digit_char_def)
  with r show ?thesis
    by blast
qed

section \<open>The navigator\<close>

lemma random_index_le:
  assumes "0 \<le> r" "r < 1"
  shows "random_index r i \<le> i"
proof -
  have "r * of_nat (i + 1) < of_nat (i + 1)"
    using assms by simp
  then have "\<lfloor>r * of_nat (i + 1)\<rfloor> < int (i + 1)"
    by (simp add: floor_less_iff)
  then show ?thesis
    by (simp add: random_index_def)
qed

lemma mset_swap_at:
  "i < length arr \<Longrightarrow> j < length arr \<Longrightarrow> mset (swap_at i j arr) = mset arr"
  by (simp add: swap_at_def mset_swap)

lemma length_swap_at: "length (swap_at i j arr) = length arr"
  by (simp add: swap_at_def)

lemma mset_fisher_yates:
  assumes "\<forall>k. 0 \<le> rnd k \<and> rnd k < 1"
  shows "m < length arr \<or> m = 0 \<Longrightarrow> mset (fisher_yates rnd k m arr) = mset arr"
proof (induction m arbitrary: k arr)
  case 0
  then show ?case by simp
next
  case (Suc m)
  then have lt: "Suc m < length arr" by simp
  have "random_index (rnd k) (Suc m) \<le> Suc m"
    using assms by (simp add: random_index_le)
  with lt have j: "random_index (rnd k) (Suc m) < length arr" by simp
  let ?arr = "swap_at (Suc m) (random_index (rnd k) (Suc m)) arr"
  have "m < length ?arr \<or> m = 0"
    using lt by (simp add: length_swap_at)
  then have "mset (fisher_yates rnd (Suc k) m ?arr) = mset ?arr"
    by (rule Suc.IH)
  then show ?case
    using lt j by (simp add: mset_swap_at)
qed

lemma mset_reorder:
  assumes "\<forall>k. 0 \<le> rnd k \<and> rnd k < 1"
  shows "mset (reorder rnd b cs) = mset [0..<length cs]"
proof (cases b)
  case True
  have "length [0..<length cs] - 1 < length [0..<length cs] \<or> length [0..<length cs] - 1 = 0"
    by (cases cs) simp_all
  then show ?thesis
    using True mset_fisher_yates [OF assms] by (simp add: reorder_def Let_def)
next
  case False
  then show ?thesis by (simp add: reorder_def)
qed

text \<open>
  Claim C8. With the draws of \<open>Math.random()\<close> in [0,1), the order computed with
  shuffle on is a permutation of the positions \<open>0..<D\<close> of the deck, that is a bijection
  on them; with shuffle off it is the identity order; and \<open>logicalIndexToReal\<close> gives back
  an index that is out of range (or NaN) unchanged.
\<close>

theorem reorder_is_permutation:
  assumes "\<forall>k. 0 \<le> rnd k \<and> rnd k < 1"
  shows "mset (reorder rnd True cs) = mset [0..<length cs]
    \<and> bij_betw (\<lambda>i. reorder rnd True cs ! i) {0..<length cs} {0..<length cs}
    \<and> reorder rnd False cs = [0..<length cs]
    \<and> (i < 0 \<or> int (length ord) \<le> i \<longrightarrow> logicalIndexToReal ord (Some i) = Some i)
    \<and> logicalIndexToReal ord None = None"
proof -
  let ?p = "reorder rnd True cs"
  have m: "mset ?p = mset [0..<length cs]"
    using assms by (rule mset_reorder)
  then have d: "distinct ?p"
    using mset_eq_imp_distinct_iff distinct_upt by blast
  have s: "set ?p = {0..<length cs}"
    using m mset_eq_setD by fastforce
  have l: "length ?p = length cs"
    using m mset_eq_length by fastforce
  have "bij_betw ((!) ?p) {..<length ?p} (set ?p)"
    using d by (simp add: bij_betw_nth)
  then have b: "bij_betw (\<lambda>i. ?p ! i) {0..<length cs} {0..<length cs}"
    by (simp add: s l lessThan_atLeast0)
  have i: "reorder rnd False cs = [0..<length cs]"
    by (simp add: reorder_def)
  have o: "i < 0 \<or> int (length ord) \<le> i \<longrightarrow> logicalIndexToReal ord (Some i) = Some i"
    by (auto simp add: logicalIndexToReal_def)
  have n: "logicalIndexToReal ord None = None"
    by (simp add: logicalIndexToReal_def)
  from m b i o n show ?thesis by blast
qed


theorem reorder_is_permutation_witness:
  "(\<forall>k. (0::rat) \<le> (\<lambda>k. 1 / 2) k \<and> (\<lambda>k. 1 / 2) k < (1::rat))
   \<and> reorder (\<lambda>k. 1 / 2) True [5, 6, 7, 8::nat] = [0, 3, 1, 2]
   \<and> mset (reorder (\<lambda>k. 1 / 2) True [5, 6, 7, 8::nat]) = mset [0..<length [5, 6, 7, 8::nat]]
   \<and> logicalIndexToReal [0, 3, 1, 2] (Some 7) = Some 7"
proof -
  have h: "\<forall>k. (0::rat) \<le> (\<lambda>k. 1 / 2) k \<and> (\<lambda>k. 1 / 2) k < (1::rat)"
    by simp
  have e: "reorder (\<lambda>k. 1 / 2) True [5, 6, 7, 8::nat] = [0, 3, 1, 2]"
    by code_simp
  have r: "(7::int) < 0 \<or> int (length [0, 3, 1, 2::nat]) \<le> 7"
    by simp
  from reorder_is_permutation [OF h, of "[5, 6, 7, 8::nat]" 7 "[0, 3, 1, 2]"] r
  have "mset (reorder (\<lambda>k. 1 / 2) True [5, 6, 7, 8::nat]) = mset [0..<length [5, 6, 7, 8::nat]]"
    and "logicalIndexToReal [0, 3, 1, 2] (Some 7) = Some 7"
    by blast+
  with h e show ?thesis by blast
qed

section \<open>What a handler leaves alone\<close>

lemma js_rem_nonneg:
  "0 \<le> x \<Longrightarrow> 0 < b \<Longrightarrow> js_rem (Some x) b = Some (x mod b)"
  by (cases "x = 0") (simp_all add: js_rem_def)

lemma playRecordedOrTTS_frame:
  "folders (playRecordedOrTTS r c s) = folders s"
  "selectedFolderId (playRecordedOrTTS r c s) = selectedFolderId s"
  "index (playRecordedOrTTS r c s) = index s"
  "isPlaying (playRecordedOrTTS r c s) = isPlaying s"
  "isUnlocked (playRecordedOrTTS r c s) = isUnlocked s"
  "shuffle (playRecordedOrTTS r c s) = shuffle s"
  "ttsRate (playRecordedOrTTS r c s) = ttsRate s"
  "repeatCount (playRecordedOrTTS r c s) = repeatCount s"
  "preferAudio (playRecordedOrTTS r c s) = preferAudio s"
  "readDescription (playRecordedOrTTS r c s) = readDescription s"
  "repeatRemainRef (playRecordedOrTTS r c s) = repeatRemainRef s"
  "orderRef (playRecordedOrTTS r c s) = orderRef s"
  by (simp_all add: playRecordedOrTTS_def playAudioWithRepeat_def playAudioOnce_def
      speakWithRepeat_def speakOnce_def Let_def)

lemma playEffect_frame:
  "folders (playEffect s) = folders s"
  "selectedFolderId (playEffect s) = selectedFolderId s"
  "index (playEffect s) = index s"
  "isPlaying (playEffect s) = isPlaying s"
  "isUnlocked (playEffect s) = isUnlocked s"
  "shuffle (playEffect s) = shuffle s"
  "ttsRate (playEffect s) = ttsRate s"
  "repeatCount (playEffect s) = repeatCount s"
  "preferAudio (playEffect s) = preferAudio s"
  "readDescription (playEffect s) = readDescription s"
  "repeatRemainRef (playEffect s) = repeatRemainRef s"
  "orderRef (playEffect s) = orderRef s"
  by (simp_all add: playEffect_def playRecordedOrTTS_frame split: option.splits)

lemma commit_frame:
  "folders (commit rnd old new) = folders new"
  "selectedFolderId (commit rnd old new) = selectedFolderId new"
  "index (commit rnd old new) = index new"
  "isPlaying (commit rnd old new) = isPlaying new"
  "isUnlocked (commit rnd old new) = isUnlocked new"
  "shuffle (commit rnd old new) = shuffle new"
  "ttsRate (commit rnd old new) = ttsRate new"
  "repeatCount (commit rnd old new) = repeatCount new"
  "preferAudio (commit rnd old new) = preferAudio new"
  "readDescription (commit rnd old new) = readDescription new"
  unfolding commit_def Let_def
  by (simp_all add: if_distrib [of folders] if_distrib [of selectedFolderId] if_distrib [of index]
      if_distrib [of isPlaying] if_distrib [of isUnlocked] if_distrib [of shuffle]
      if_distrib [of ttsRate] if_distrib [of repeatCount] if_distrib [of preferAudio]
      if_distrib [of readDescription] playEffect_frame orderEffect_def resetEffect_def
      split del: if_split cong: if_cong)

lemma selectedFolder_cong:
  assumes "folders t = folders s" "selectedFolderId t = selectedFolderId s"
  shows "selectedFolder t = selectedFolder s"
  unfolding selectedFolder_def assms ..

lemma cards_cong:
  assumes "folders t = folders s" "selectedFolderId t = selectedFolderId s"
  shows "cards t = cards s"
  unfolding cards_def selectedFolder_cong [OF assms] ..

lemma commit_same:
  assumes "selectedFolder new = selectedFolder old" "shuffle new = shuffle old"
    "index new = index old" "selectedFolderId new = selectedFolderId old"
    "repeatCount new = repeatCount old" "ttsRate new = ttsRate old"
    "preferAudio new = preferAudio old" "isPlaying new = isPlaying old"
  shows "commit rnd old new = new"
  using assms by (simp add: commit_def)

text \<open>
  Claim C3. On a deck of \<open>D > 0\<close> cards at a position \<open>i\<close> with \<open>0 \<le> i < D\<close>, the
  next button sets the position to \<open>(i + 1) mod D\<close> and the previous button to
  \<open>(i - 1 + D) mod D\<close>: next wraps from the last position to 0, previous from 0 to the
  last position. \<open>D = 1\<close> is included.
\<close>

theorem next_prev_wrap:
  assumes "cards s \<noteq> []" and "index s = Some i" and "0 \<le> i" and "i < int (length (cards s))"
  shows "index (step ClickNext s) = Some ((i + 1) mod int (length (cards s)))
    \<and> index (step ClickPrev s) = Some ((i - 1 + int (length (cards s))) mod int (length (cards s)))
    \<and> (i = int (length (cards s)) - 1 \<longrightarrow> index (step ClickNext s) = Some 0)
    \<and> (i = 0 \<longrightarrow> index (step ClickPrev s) = Some (int (length (cards s)) - 1))"
proof -
  let ?D = "int (length (cards s))"
  have D: "0 < ?D" using assms(1) by simp
  have n: "index (step ClickNext s) = Some ((i + 1) mod ?D)"
    using assms D by (simp add: step_def commit_frame next_card_def js_add_def js_rem_nonneg Let_def)
  have p: "index (step ClickPrev s) = Some ((i - 1 + ?D) mod ?D)"
    using assms D by (simp add: step_def commit_frame prev_card_def js_add_def js_rem_nonneg Let_def)
  have w1: "i = ?D - 1 \<longrightarrow> (i + 1) mod ?D = 0"
    by simp
  have "(?D - 1) mod ?D = ?D - 1"
    using D by (intro mod_pos_pos_trivial) auto
  then have w2: "i = 0 \<longrightarrow> (i - 1 + ?D) mod ?D = ?D - 1"
    by simp
  show ?thesis
    unfolding n p using w1 w2 by simp
qed


lemma mount_frame:
  "folders (mount fs st rnd) = fs"
  "selectedFolderId (mount fs st rnd) = st_lastFolder st"
  "index (mount fs st rnd) = Some 0"
  "isPlaying (mount fs st rnd) = False"
  "isUnlocked (mount fs st rnd) = False"
  "repeatCount (mount fs st rnd) = clampRepeat (loadNumber (st_repeat st) 1)"
  "repeatRemainRef (mount fs st rnd) = clampRepeat (loadNumber (st_repeat st) 1)"
  "preferAudio (mount fs st rnd) = True"
  "readDescription (mount fs st rnd) = loadBool (st_readDesc st) False"
  by (simp_all add: mount_def Let_def playEffect_frame resetEffect_def orderEffect_def)

lemma sample_length: "length (cards (mount SAMPLE_FOLDERS empty_storage rnd)) = 2"
  by (simp add: cards_def selectedFolder_def mount_frame SAMPLE_FOLDERS_def empty_storage_def)

theorem next_prev_wrap_witness:
  "cards (mount SAMPLE_FOLDERS empty_storage (\<lambda>k. 0)) \<noteq> []
   \<and> index (mount SAMPLE_FOLDERS empty_storage (\<lambda>k. 0)) = Some 0
   \<and> (0::int) < int (length (cards (mount SAMPLE_FOLDERS empty_storage (\<lambda>k. 0))))
   \<and> index (step ClickNext (mount SAMPLE_FOLDERS empty_storage (\<lambda>k. 0))) = Some 1
   \<and> index (step ClickPrev (mount SAMPLE_FOLDERS empty_storage (\<lambda>k. 0))) = Some 1"
proof -
  let ?s = "mount SAMPLE_FOLDERS empty_storage (\<lambda>k. 0)"
  have l: "length (cards ?s) = 2"
    by (rule sample_length)
  then have a: "cards ?s \<noteq> []"
    by auto
  have b: "index ?s = Some 0"
    by (simp add: mount_frame)
  have c: "(0::int) < int (length (cards ?s))"
    by (simp add: l)
  from next_prev_wrap [OF a b order_refl c]
  have "index (step ClickNext ?s) = Some ((0 + 1) mod int (length (cards ?s)))"
    and "index (step ClickPrev ?s) = Some ((0 - 1 + int (length (cards ?s))) mod int (length (cards ?s)))"
    by blast+
  then have "index (step ClickNext ?s) = Some 1" and "index (step ClickPrev ?s) = Some 1"
    by (simp_all add: l)
  with a b c show ?thesis by blast
qed

section \<open>Transport on an empty deck\<close>

lemma commit_play_only:
  assumes "selectedFolder new = selectedFolder old" "shuffle new = shuffle old"
    "index new = index old" "selectedFolderId new = selectedFolderId old"
    "repeatCount new = repeatCount old"
  shows "commit rnd old new =
    (if ttsRate new \<noteq> ttsRate old \<or> preferAudio new \<noteq> preferAudio old
        \<or> isPlaying new \<noteq> isPlaying old
     then playEffect new else new)"
  unfolding commit_def Let_def assms by simp

lemma currentCard_empty: "cards s = [] \<Longrightarrow> currentCard s = None"
  by (simp add: currentCard_def card_at_def)

lemma step_next_empty: "cards s = [] \<Longrightarrow> step ClickNext s = s"
  by (simp add: step_def next_card_def commit_same)

lemma step_prev_empty: "cards s = [] \<Longrightarrow> step ClickPrev s = s"
  by (simp add: step_def prev_card_def commit_same)

lemma step_replay_empty: "cards s = [] \<Longrightarrow> step ClickReplay s = s"
  by (simp add: step_def replayClick_def currentCard_empty commit_same)

lemma pauseBranch_frame:
  "folders (pauseBranch s) = folders s"
  "selectedFolderId (pauseBranch s) = selectedFolderId s"
  "index (pauseBranch s) = index s"
  "isPlaying (pauseBranch s) = False"
  "isUnlocked (pauseBranch s) = isUnlocked s"
  "shuffle (pauseBranch s) = shuffle s"
  "ttsRate (pauseBranch s) = ttsRate s"
  "repeatCount (pauseBranch s) = repeatCount s"
  "preferAudio (pauseBranch s) = preferAudio s"
  "readDescription (pauseBranch s) = readDescription s"
  "repeatRemainRef (pauseBranch s) = repeatRemainRef s"
  "orderRef (pauseBranch s) = orderRef s"
  by (simp_all add: pauseBranch_def)

lemma playEffect_paused: "\<not> isPlaying s \<Longrightarrow> playEffect s = s"
  by (simp add: playEffect_def)

lemma playEffect_empty: "cards s = [] \<Longrightarrow> playEffect s = s"
  by (simp add: playEffect_def)

lemma step_pause:
  assumes "isPlaying s"
  shows "step ClickPlayPause s = pauseBranch s"
proof -
  have "selectedFolder (pauseBranch s) = selectedFolder s"
    by (rule selectedFolder_cong) (simp_all add: pauseBranch_frame)
  then have "commit (\<lambda>k. 0) s (pauseBranch s) = playEffect (pauseBranch s)"
    using assms by (simp add: commit_play_only pauseBranch_frame)
  then show ?thesis
    using assms by (simp add: step_def playPauseClick_def playEffect_paused pauseBranch_frame)
qed

lemma step_resume_empty:
  assumes "\<not> isPlaying s" "cards s = []"
  shows "step ClickPlayPause s = s\<lparr>isPlaying := True, repeatRemainRef := repeatCount s\<rparr>"
proof -
  let ?t = "s\<lparr>isPlaying := True, repeatRemainRef := repeatCount s\<rparr>"
  have d: "playPauseClick s = ?t"
    using assms by (simp add: playPauseClick_def resumeBranch_def currentCard_empty)
  have f: "selectedFolder ?t = selectedFolder s"
    by (rule selectedFolder_cong) simp_all
  have "cards ?t = cards s"
    by (rule cards_cong) simp_all
  then have "playEffect ?t = ?t"
    using assms by (simp add: playEffect_empty)
  moreover have "commit (\<lambda>k. 0) s ?t = playEffect ?t"
    using assms f by (simp add: commit_play_only)
  ultimately show ?thesis
    by (simp add: step_def d)
qed

lemma pauseBranch_twice:
  "pauseBranch (pauseBranch t)
     = (pauseBranch t)\<lparr>trace := trace (pauseBranch t) @ [CancelSpeech, PauseAudio]\<rparr>"
  by (simp add: pauseBranch_def)

text \<open>
  Claim C6, as the code has it. On an empty deck the next, previous and replay buttons
  leave the session exactly as it was. The play/pause button starts no playback there
  and keeps the position, but it does change the session: it flips the playing flag, and
  when it resumes it also resets the remaining counter to the configured count and
  changes nothing else. Pausing, on any deck, is what a press of play/pause does in a
  playing session: it switches the playing flag off, cancels speech, pauses every audio
  element and unbinds its handlers, and leaves every other part of the session as it
  was. Pausing twice in a row is idempotent: the second pause issues the same two calls
  again and changes no part of the state that the first one left.
\<close>

theorem empty_deck_transport:
  "(cards s = [] \<longrightarrow>
      step ClickNext s = s \<and> step ClickPrev s = s \<and> step ClickReplay s = s
      \<and> isPlaying (step ClickPlayPause s) = (\<not> isPlaying s)
      \<and> index (step ClickPlayPause s) = index s
      \<and> filter starts_playback (trace (step ClickPlayPause s))
          = filter starts_playback (trace s)
      \<and> (\<not> isPlaying s \<longrightarrow>
            step ClickPlayPause s = s\<lparr>isPlaying := True, repeatRemainRef := repeatCount s\<rparr>))
   \<and> (isPlaying t \<longrightarrow>
        step ClickPlayPause t
          = t\<lparr>isPlaying := False, audioCache := (\<lambda>url. (None, None)),
              trace := trace t @ [CancelSpeech, PauseAudio]\<rparr>)
   \<and> pauseBranch t
        = t\<lparr>isPlaying := False, audioCache := (\<lambda>url. (None, None)),
            trace := trace t @ [CancelSpeech, PauseAudio]\<rparr>
   \<and> pauseBranch (pauseBranch t)
        = (pauseBranch t)\<lparr>trace := trace (pauseBranch t) @ [CancelSpeech, PauseAudio]\<rparr>
   \<and> pauseBranch (pauseBranch t)
        = t\<lparr>isPlaying := False, audioCache := (\<lambda>url. (None, None)),
            trace := trace t @ [CancelSpeech, PauseAudio, CancelSpeech, PauseAudio]\<rparr>"
proof -
  have e: "step ClickNext s = s \<and> step ClickPrev s = s \<and> step ClickReplay s = s
      \<and> isPlaying (step ClickPlayPause s) = (\<not> isPlaying s)
      \<and> index (step ClickPlayPause s) = index s
      \<and> filter starts_playback (trace (step ClickPlayPause s))
          = filter starts_playback (trace s)
      \<and> (\<not> isPlaying s \<longrightarrow>
            step ClickPlayPause s = s\<lparr>isPlaying := True, repeatRemainRef := repeatCount s\<rparr>)"
    if empty: "cards s = []"
  proof -
    have np: "step ClickNext s = s \<and> step ClickPrev s = s \<and> step ClickReplay s = s"
      using empty by (simp add: step_next_empty step_prev_empty step_replay_empty)
    have p: "isPlaying s \<longrightarrow> step ClickPlayPause s = pauseBranch s"
      by (simp add: step_pause)
    have r: "\<not> isPlaying s \<longrightarrow>
        step ClickPlayPause s = s\<lparr>isPlaying := True, repeatRemainRef := repeatCount s\<rparr>"
      using empty by (simp add: step_resume_empty)
    have a: "isPlaying (step ClickPlayPause s) = (\<not> isPlaying s)"
      using p r by (cases "isPlaying s") (simp_all add: pauseBranch_frame)
    have b: "index (step ClickPlayPause s) = index s"
      using p r by (cases "isPlaying s") (simp_all add: pauseBranch_frame)
    have c: "filter starts_playback (trace (step ClickPlayPause s))
        = filter starts_playback (trace s)"
      using p r by (cases "isPlaying s") (simp_all add: pauseBranch_def)
    from np a b c r show ?thesis by blast
  qed
  have d: "pauseBranch t
      = t\<lparr>isPlaying := False, audioCache := (\<lambda>url. (None, None)),
          trace := trace t @ [CancelSpeech, PauseAudio]\<rparr>"
    by (simp add: pauseBranch_def)
  have p: "isPlaying t \<longrightarrow>
      step ClickPlayPause t
        = t\<lparr>isPlaying := False, audioCache := (\<lambda>url. (None, None)),
            trace := trace t @ [CancelSpeech, PauseAudio]\<rparr>"
    using step_pause [of t] d by simp
  have i: "pauseBranch (pauseBranch t)
      = (pauseBranch t)\<lparr>trace := trace (pauseBranch t) @ [CancelSpeech, PauseAudio]\<rparr>"
    by (rule pauseBranch_twice)
  have j: "pauseBranch (pauseBranch t)
      = t\<lparr>isPlaying := False, audioCache := (\<lambda>url. (None, None)),
          trace := trace t @ [CancelSpeech, PauseAudio, CancelSpeech, PauseAudio]\<rparr>"
    by (simp add: pauseBranch_def)
  from e p d i j show ?thesis by blast
qed

lemma mount_trace0: "trace (mount fs st rnd) = []"
  by (simp add: mount_def Let_def playEffect_def resetEffect_def orderEffect_def)

lemma empty_deck_cards: "cards (mount EMPTY_DECK empty_storage rnd) = []"
  by (simp add: cards_def selectedFolder_def mount_frame EMPTY_DECK_def empty_storage_def)

theorem empty_deck_transport_witness:
  "cards (mount EMPTY_DECK empty_storage no_draws) = []
   \<and> \<not> isPlaying (mount EMPTY_DECK empty_storage no_draws)
   \<and> isPlaying (step ClickPlayPause (mount EMPTY_DECK empty_storage no_draws))
   \<and> step ClickNext (mount EMPTY_DECK empty_storage no_draws)
       = mount EMPTY_DECK empty_storage no_draws
   \<and> step ClickPlayPause (mount EMPTY_DECK empty_storage no_draws)
       = (mount EMPTY_DECK empty_storage no_draws)
           \<lparr>isPlaying := True,
            repeatRemainRef := repeatCount (mount EMPTY_DECK empty_storage no_draws)\<rparr>
   \<and> isPlaying (step ClickPlayPause (step ClickPlayPause
         (mount EMPTY_DECK empty_storage no_draws))) = False
   \<and> trace (step ClickPlayPause (step ClickPlayPause
         (mount EMPTY_DECK empty_storage no_draws))) = [CancelSpeech, PauseAudio]"
proof -
  define m where "m = mount EMPTY_DECK empty_storage no_draws"
  define t where "t = step ClickPlayPause m"
  have e: "cards m = []"
    unfolding m_def by (rule empty_deck_cards)
  have n: "\<not> isPlaying m"
    unfolding m_def by (simp add: mount_frame)
  have tr: "trace m = []"
    unfolding m_def by (rule mount_trace0)
  note T = empty_deck_transport [of m t]
  from T e n have nx: "step ClickNext m = m"
    and r: "step ClickPlayPause m = m\<lparr>isPlaying := True, repeatRemainRef := repeatCount m\<rparr>"
    by blast+
  then have pl: "isPlaying t" and tt: "trace t = []"
    using tr by (simp_all add: t_def)
  from T pl
  have "step ClickPlayPause t
      = t\<lparr>isPlaying := False, audioCache := (\<lambda>url. (None, None)),
          trace := trace t @ [CancelSpeech, PauseAudio]\<rparr>"
    by blast
  then have "isPlaying (step ClickPlayPause t) = False"
    and "trace (step ClickPlayPause t) = [CancelSpeech, PauseAudio]"
    using tt by simp_all
  with e n nx r pl show ?thesis
    unfolding t_def m_def by blast
qed

text \<open>
  Claim C6 as stated fails: on an empty deck a press of play/pause changes the session.
\<close>

theorem empty_deck_play_changes_state:
  "cards (mount EMPTY_DECK empty_storage no_draws) = []
   \<and> step ClickPlayPause (mount EMPTY_DECK empty_storage no_draws)
       \<noteq> mount EMPTY_DECK empty_storage no_draws"
proof -
  let ?s = "mount EMPTY_DECK empty_storage no_draws"
  have e: "cards ?s = []"
    by (rule empty_deck_cards)
  have n: "\<not> isPlaying ?s"
    by (simp add: mount_frame)
  have "isPlaying (step ClickPlayPause ?s)"
    using step_resume_empty [OF n e] by simp
  with n have "step ClickPlayPause ?s \<noteq> ?s"
    by auto
  with e show ?thesis by blast
qed

section \<open>Repeating the term\<close>

lemma run_Nil: "run [] s = s"
  by (simp add: run_def)

lemma run_Cons: "run (e # es) s = run es (step e s)"
  by (simp add: run_def)

lemma run_append: "run (es @ fs) s = run fs (run es s)"
  by (simp add: run_def)

lemma audio_repeat_handler:
  assumes "audioCache s (audioUrlOf c) = (Some (AudioUnitEnd c r), Some (AudioUnitEnd c r))"
    and "1 < repeatRemainRef s"
  shows "deliver (AudioEnded (audioUrlOf c)) s =
    s\<lparr>repeatRemainRef := repeatRemainRef s - 1,
      plays := plays s @ [Some (AudioUnitEnd c r)],
      trace := trace s @ [PlayAudio (audioUrlOf c)]\<rparr>"
proof -
  have "(audioCache s)(audioUrlOf c := (Some (AudioUnitEnd c r), Some (AudioUnitEnd c r)))
      = audioCache s"
    using assms(1) by (metis fun_upd_triv)
  then show ?thesis
    using assms
    by (simp add: run_slot_def advanceOrRepeat_def playAudioWithRepeat_def playAudioOnce_def)
qed

lemma audio_repeat_step:
  assumes "audioCache s (audioUrlOf c) = (Some (AudioUnitEnd c r), Some (AudioUnitEnd c r))"
    and "1 < repeatRemainRef s"
  shows "step (AudioEnded (audioUrlOf c)) s =
    s\<lparr>repeatRemainRef := repeatRemainRef s - 1,
      plays := plays s @ [Some (AudioUnitEnd c r)],
      trace := trace s @ [PlayAudio (audioUrlOf c)]\<rparr>"
proof -
  let ?t = "s\<lparr>repeatRemainRef := repeatRemainRef s - 1,
      plays := plays s @ [Some (AudioUnitEnd c r)],
      trace := trace s @ [PlayAudio (audioUrlOf c)]\<rparr>"
  have "selectedFolder ?t = selectedFolder s"
    by (rule selectedFolder_cong) simp_all
  then have "commit (\<lambda>k. 0) s ?t = ?t"
    by (intro commit_same) simp_all
  then show ?thesis
    unfolding step_def audio_repeat_handler [OF assms] by simp
qed


lemma audio_repeat_loop:
  assumes "audioCache s (audioUrlOf c) = (Some (AudioUnitEnd c r), Some (AudioUnitEnd c r))"
    and "repeatRemainRef s = of_nat (n + Suc j)"
  shows "run (replicate n (AudioEnded (audioUrlOf c))) s =
    s\<lparr>repeatRemainRef := of_nat (Suc j),
      plays := plays s @ replicate n (Some (AudioUnitEnd c r)),
      trace := trace s @ replicate n (PlayAudio (audioUrlOf c))\<rparr>"
  using assms
proof (induction n arbitrary: s)
  case 0
  then have "s\<lparr>repeatRemainRef := of_nat (Suc j)\<rparr> = s"
    by simp
  then show ?case
    by (simp add: run_Nil)
next
  case (Suc n)
  let ?t = "s\<lparr>repeatRemainRef := repeatRemainRef s - 1,
      plays := plays s @ [Some (AudioUnitEnd c r)],
      trace := trace s @ [PlayAudio (audioUrlOf c)]\<rparr>"
  have "1 < repeatRemainRef s"
    using Suc.prems(2) by simp
  then have st: "step (AudioEnded (audioUrlOf c)) s = ?t"
    using Suc.prems(1) by (rule audio_repeat_step [rotated])
  have c: "audioCache ?t (audioUrlOf c) = (Some (AudioUnitEnd c r), Some (AudioUnitEnd c r))"
    using Suc.prems(1) by simp
  have m: "repeatRemainRef ?t = of_nat (n + Suc j)"
    using Suc.prems(2) by simp
  show ?case
    unfolding replicate_Suc run_Cons st Suc.IH [OF c m]
    by (simp add: replicate_app_Cons_same)
qed

lemma speech_repeat_handler:
  assumes "m < length (utts s)" and "fst (utts s ! m) = Some (SpeechUnitEnd c r)"
    and "1 < repeatRemainRef s"
  shows "deliver (UtterEnd m) s =
    s\<lparr>repeatRemainRef := repeatRemainRef s - 1,
      utts := utts s @ [(Some (SpeechUnitEnd c r), None)],
      trace := trace s @ [Speak TermUnit (card_term c) (lang_of c) (rate_of r c)]\<rparr>"
  using assms
  by (simp add: run_slot_def advanceOrRepeat_def speakWithRepeat_def speakOnce_def)

lemma speech_repeat_step:
  assumes "m < length (utts s)" and "fst (utts s ! m) = Some (SpeechUnitEnd c r)"
    and "1 < repeatRemainRef s"
  shows "step (UtterEnd m) s =
    s\<lparr>repeatRemainRef := repeatRemainRef s - 1,
      utts := utts s @ [(Some (SpeechUnitEnd c r), None)],
      trace := trace s @ [Speak TermUnit (card_term c) (lang_of c) (rate_of r c)]\<rparr>"
proof -
  let ?t = "s\<lparr>repeatRemainRef := repeatRemainRef s - 1,
      utts := utts s @ [(Some (SpeechUnitEnd c r), None)],
      trace := trace s @ [Speak TermUnit (card_term c) (lang_of c) (rate_of r c)]\<rparr>"
  have "selectedFolder ?t = selectedFolder s"
    by (rule selectedFolder_cong) simp_all
  then have "commit (\<lambda>k. 0) s ?t = ?t"
    by (intro commit_same) simp_all
  then show ?thesis
    unfolding step_def speech_repeat_handler [OF assms] by simp
qed

lemma speech_repeat_loop:
  assumes "length (utts s) = Suc m" and "fst (utts s ! m) = Some (SpeechUnitEnd c r)"
    and "repeatRemainRef s = of_nat (n + Suc j)"
  shows "run (map UtterEnd [m..<m + n]) s =
    s\<lparr>repeatRemainRef := of_nat (Suc j),
      utts := utts s @ replicate n (Some (SpeechUnitEnd c r), None),
      trace := trace s @ replicate n (Speak TermUnit (card_term c) (lang_of c) (rate_of r c))\<rparr>"
  using assms
proof (induction n arbitrary: s m)
  case 0
  then have "s\<lparr>repeatRemainRef := of_nat (Suc j)\<rparr> = s"
    by simp
  then show ?case
    by (simp add: run_Nil)
next
  case (Suc n)
  let ?t = "s\<lparr>repeatRemainRef := repeatRemainRef s - 1,
      utts := utts s @ [(Some (SpeechUnitEnd c r), None)],
      trace := trace s @ [Speak TermUnit (card_term c) (lang_of c) (rate_of r c)]\<rparr>"
  have lt: "m < length (utts s)"
    using Suc.prems(1) by simp
  have "1 < repeatRemainRef s"
    using Suc.prems(3) by simp
  with lt Suc.prems(2) have st: "step (UtterEnd m) s = ?t"
    by (rule speech_repeat_step)
  have l: "length (utts ?t) = Suc (Suc m)"
    using Suc.prems(1) by simp
  have b: "fst (utts ?t ! Suc m) = Some (SpeechUnitEnd c r)"
    using Suc.prems(1) by (simp add: nth_append)
  have r: "repeatRemainRef ?t = of_nat (n + Suc j)"
    using Suc.prems(3) by simp
  have e: "[m..<m + Suc n] = m # [Suc m..<Suc m + n]"
    by (simp add: upt_rec)
  show ?case
    unfolding e list.map run_Cons st Suc.IH [OF l b r]
    by (simp add: replicate_app_Cons_same)
qed

lemma audio_done_handler:
  assumes "fst (audioCache s (audioUrlOf c)) = Some (AudioUnitEnd c r)"
    and "\<not> 1 < repeatRemainRef s"
  shows "deliver (AudioEnded (audioUrlOf c)) s = termDone r c s"
  using assms by (simp add: run_slot_def advanceOrRepeat_def)

lemma speech_done_handler:
  assumes "m < length (utts s)" and "fst (utts s ! m) = Some (SpeechUnitEnd c r)"
    and "\<not> 1 < repeatRemainRef s"
  shows "deliver (UtterEnd m) s = termDone r c s"
  using assms by (simp add: run_slot_def advanceOrRepeat_def)



lemma audio_start:
  assumes "r_isUnlocked r" and "r_preferAudio r"
  shows "playRecordedOrTTS r c s =
    s\<lparr>audioCache := (audioCache s)(audioUrlOf c := (Some (AudioUnitEnd c r), Some (AudioUnitEnd c r))),
      plays := plays s @ [Some (AudioUnitEnd c r)],
      trace := trace s @ [CancelSpeech, PlayAudio (audioUrlOf c)]\<rparr>"
  using assms by (simp add: playRecordedOrTTS_def playAudioWithRepeat_def playAudioOnce_def Let_def)

lemma speech_start:
  assumes "r_isUnlocked r" and "\<not> r_preferAudio r"
  shows "playRecordedOrTTS r c s =
    s\<lparr>utts := utts s @ [(Some (SpeechUnitEnd c r), None)],
      trace := trace s @ [CancelSpeech, Speak TermUnit (card_term c) (lang_of c) (rate_of r c)]\<rparr>"
  using assms by (simp add: playRecordedOrTTS_def speakWithRepeat_def speakOnce_def)

lemma audio_prefix:
  assumes "r_isUnlocked r" and "r_preferAudio r" and "repeatRemainRef s = of_nat N" and "k < N"
  shows "run (replicate k (AudioEnded (audioUrlOf c))) (playRecordedOrTTS r c s) =
    (playRecordedOrTTS r c s)
      \<lparr>repeatRemainRef := of_nat (N - k),
       plays := plays s @ replicate (Suc k) (Some (AudioUnitEnd c r)),
       trace := trace s @ [CancelSpeech] @ replicate (Suc k) (PlayAudio (audioUrlOf c))\<rparr>"
proof -
  let ?p = "playRecordedOrTTS r c s"
  have p: "?p = s\<lparr>audioCache := (audioCache s)(audioUrlOf c := (Some (AudioUnitEnd c r), Some (AudioUnitEnd c r))),
      plays := plays s @ [Some (AudioUnitEnd c r)],
      trace := trace s @ [CancelSpeech, PlayAudio (audioUrlOf c)]\<rparr>"
    using assms(1,2) by (rule audio_start)
  have a: "audioCache ?p (audioUrlOf c) = (Some (AudioUnitEnd c r), Some (AudioUnitEnd c r))"
    unfolding p by simp
  have "N = k + Suc (N - k - 1)"
    using assms(4) by simp
  then have "repeatRemainRef s = of_nat (k + Suc (N - k - 1))"
    using assms(3) by simp
  then have b: "repeatRemainRef ?p = of_nat (k + Suc (N - k - 1))"
    unfolding p by simp
  have "Suc (N - k - 1) = N - k"
    using assms(4) by simp
  then show ?thesis
    unfolding audio_repeat_loop [OF a b]
    by (simp add: p replicate_append_same)
qed

lemma speech_prefix:
  assumes "r_isUnlocked r" and "\<not> r_preferAudio r" and "repeatRemainRef s = of_nat N" and "k < N"
  shows "run (map UtterEnd [length (utts s)..<length (utts s) + k]) (playRecordedOrTTS r c s) =
    (playRecordedOrTTS r c s)
      \<lparr>repeatRemainRef := of_nat (N - k),
       utts := utts s @ replicate (Suc k) (Some (SpeechUnitEnd c r), None),
       trace := trace s @ [CancelSpeech]
          @ replicate (Suc k) (Speak TermUnit (card_term c) (lang_of c) (rate_of r c))\<rparr>"
proof -
  let ?p = "playRecordedOrTTS r c s"
  have p: "?p = s\<lparr>utts := utts s @ [(Some (SpeechUnitEnd c r), None)],
      trace := trace s @ [CancelSpeech, Speak TermUnit (card_term c) (lang_of c) (rate_of r c)]\<rparr>"
    using assms(1,2) by (rule speech_start)
  have l: "length (utts ?p) = Suc (length (utts s))"
    unfolding p by simp
  have a: "fst (utts ?p ! length (utts s)) = Some (SpeechUnitEnd c r)"
    unfolding p by simp
  have "N = k + Suc (N - k - 1)"
    using assms(4) by simp
  then have "repeatRemainRef s = of_nat (k + Suc (N - k - 1))"
    using assms(3) by simp
  then have b: "repeatRemainRef ?p = of_nat (k + Suc (N - k - 1))"
    unfolding p by simp
  have "Suc (N - k - 1) = N - k"
    using assms(4) by simp
  then show ?thesis
    unfolding speech_repeat_loop [OF l a b]
    by (simp add: p replicate_append_same)
qed



lemma nth_term_completions:
  "k < N \<Longrightarrow> term_completions r c s N ! k =
     (if r_preferAudio r then AudioEnded (audioUrlOf c) else UtterEnd (length (utts s) + k))"
  by (simp add: term_completions_def)

lemma last_unit_audio:
  assumes "r_isUnlocked r" and "r_preferAudio r" and "repeatRemainRef s = of_nat N" and "0 < N"
  shows "deliver (AudioEnded (audioUrlOf c))
           (run (replicate (N - 1) (AudioEnded (audioUrlOf c))) (playRecordedOrTTS r c s))
    = termDone r c
           (run (replicate (N - 1) (AudioEnded (audioUrlOf c))) (playRecordedOrTTS r c s))"
proof -
  let ?t = "run (replicate (N - 1) (AudioEnded (audioUrlOf c))) (playRecordedOrTTS r c s)"
  have k: "N - 1 < N" using assms(4) by simp
  have t: "?t = (playRecordedOrTTS r c s)
      \<lparr>repeatRemainRef := of_nat (N - (N - 1)),
       plays := plays s @ replicate (Suc (N - 1)) (Some (AudioUnitEnd c r)),
       trace := trace s @ [CancelSpeech] @ replicate (Suc (N - 1)) (PlayAudio (audioUrlOf c))\<rparr>"
    using assms(1,2,3) k by (rule audio_prefix)
  have "N - (N - 1) = 1" using assms(4) by simp
  then have a: "\<not> 1 < repeatRemainRef ?t"
    unfolding t by simp
  have b: "fst (audioCache ?t (audioUrlOf c)) = Some (AudioUnitEnd c r)"
    unfolding t by (simp add: audio_start [OF assms(1,2)])
  show ?thesis
    using b a by (rule audio_done_handler)
qed

lemma last_unit_speech:
  assumes "r_isUnlocked r" and "\<not> r_preferAudio r" and "repeatRemainRef s = of_nat N" and "0 < N"
  shows "deliver (UtterEnd (length (utts s) + (N - 1)))
           (run (map UtterEnd [length (utts s)..<length (utts s) + (N - 1)]) (playRecordedOrTTS r c s))
    = termDone r c
           (run (map UtterEnd [length (utts s)..<length (utts s) + (N - 1)]) (playRecordedOrTTS r c s))"
proof -
  let ?t = "run (map UtterEnd [length (utts s)..<length (utts s) + (N - 1)]) (playRecordedOrTTS r c s)"
  have k: "N - 1 < N" using assms(4) by simp
  have t: "?t = (playRecordedOrTTS r c s)
      \<lparr>repeatRemainRef := of_nat (N - (N - 1)),
       utts := utts s @ replicate (Suc (N - 1)) (Some (SpeechUnitEnd c r), None),
       trace := trace s @ [CancelSpeech]
          @ replicate (Suc (N - 1)) (Speak TermUnit (card_term c) (lang_of c) (rate_of r c))\<rparr>"
    using assms(1,2,3) k by (rule speech_prefix)
  have "N - (N - 1) = 1" using assms(4) by simp
  then have a: "\<not> 1 < repeatRemainRef ?t"
    unfolding t by simp
  have l: "length (utts s) + (N - 1) < length (utts ?t)"
    unfolding t by simp
  have b: "fst (utts ?t ! (length (utts s) + (N - 1))) = Some (SpeechUnitEnd c r)"
    unfolding t by (simp add: nth_append_length_plus del: replicate.simps)
  show ?thesis
    using l b a by (rule speech_done_handler)
qed

lemma last_unit:
  assumes "r_isUnlocked r" and "repeatRemainRef s = of_nat N" and "0 < N"
  shows "deliver (term_completions r c s N ! (N - 1))
           (run (term_completions r c s (N - 1)) (playRecordedOrTTS r c s))
    = termDone r c (run (term_completions r c s (N - 1)) (playRecordedOrTTS r c s))"
proof (cases "r_preferAudio r")
  case True
  with last_unit_audio [OF assms(1) True assms(2,3)] assms(3) show ?thesis
    by (simp add: term_completions_def)
next
  case False
  with last_unit_speech [OF assms(1) False assms(2,3)] assms(3) show ?thesis
    by (simp add: term_completions_def)
qed

lemma prefix_facts:
  assumes "r_isUnlocked r" and "repeatRemainRef s = of_nat N" and "k < N"
  shows "repeatRemainRef (run (term_completions r c s k) (playRecordedOrTTS r c s)) = of_nat (N - k)"
    and "index (run (term_completions r c s k) (playRecordedOrTTS r c s)) = index s"
    and "trace (run (term_completions r c s k) (playRecordedOrTTS r c s))
          = trace s @ [CancelSpeech] @ replicate (Suc k) (term_unit r c)"
proof -
  show "repeatRemainRef (run (term_completions r c s k) (playRecordedOrTTS r c s)) = of_nat (N - k)"
  proof (cases "r_preferAudio r")
    case True
    with audio_prefix [OF assms(1) True assms(2,3), of c] show ?thesis
      by (simp add: term_completions_def)
  next
    case False
    with speech_prefix [OF assms(1) False assms(2,3), of c] show ?thesis
      by (simp add: term_completions_def)
  qed
  show "index (run (term_completions r c s k) (playRecordedOrTTS r c s)) = index s"
  proof (cases "r_preferAudio r")
    case True
    with audio_prefix [OF assms(1) True assms(2,3), of c] show ?thesis
      by (simp add: term_completions_def playRecordedOrTTS_frame)
  next
    case False
    with speech_prefix [OF assms(1) False assms(2,3), of c] show ?thesis
      by (simp add: term_completions_def playRecordedOrTTS_frame)
  qed
  show "trace (run (term_completions r c s k) (playRecordedOrTTS r c s))
          = trace s @ [CancelSpeech] @ replicate (Suc k) (term_unit r c)"
  proof (cases "r_preferAudio r")
    case True
    with audio_prefix [OF assms(1) True assms(2,3), of c] show ?thesis
      by (simp add: term_completions_def term_unit_def)
  next
    case False
    with speech_prefix [OF assms(1) False assms(2,3), of c] show ?thesis
      by (simp add: term_completions_def term_unit_def)
  qed
qed




lemma mount_trace: "trace (mount fs st rnd) = []"
  by (simp add: mount_def Let_def playEffect_def resetEffect_def orderEffect_def)

lemma sample_card_simps:
  "card_id SAMPLE_CARD = SafeInt (Abs_safe_int 1)"
  "card_description SAMPLE_CARD = Some []"
  "lang_of SAMPLE_CARD = Some KoKR"
  "card_term SAMPLE_CARD = [49324, 44284]"
  by (simp_all add: SAMPLE_CARD_def SAMPLE_FOLDERS_def lang_of_def)

lemma sample_url: "audioUrlOf SAMPLE_CARD = ''/audio/0001_ko-KR.mp3''"
proof -
  have "audioFileName SAMPLE_CARD = ''0001_ko-KR.mp3''"
    by (simp add: audioFileName_eq sample_card_simps js_String_def small_ids pad4 zero_padded4_def
        digit_char_def)
  moreover have "encodeURIComponent (audioFileName SAMPLE_CARD) = audioFileName SAMPLE_CARD"
    by (rule encode_unreserved) (rule audioFileName_unreserved [OF sample_card_simps(1)])
  ultimately show ?thesis
    by (simp add: audioUrlOf_def)
qed




section \<open>Single steps\<close>

lemma trace_playRecordedOrTTS:
  "trace (playRecordedOrTTS r c s)
     = trace s @ (if r_isUnlocked r then [CancelSpeech, term_unit r c] else [])"
  by (simp add: playRecordedOrTTS_def playAudioWithRepeat_def playAudioOnce_def
      speakWithRepeat_def speakOnce_def term_unit_def Let_def)

lemma currentCard_cong:
  assumes "folders t = folders s" "selectedFolderId t = selectedFolderId s"
    "index t = index s" "orderRef t = orderRef s"
  shows "currentCard t = currentCard s"
  unfolding currentCard_def cards_cong [OF assms(1,2)] assms(3,4) ..

lemma currentCard_cards: "currentCard s = Some c \<Longrightarrow> cards s \<noteq> []"
  by (auto simp add: currentCard_def card_at_def)

lemma playEffect_playing:
  assumes "isPlaying s"
  shows "playEffect s = (case currentCard s of None \<Rightarrow> s
                         | Some c \<Rightarrow> playRecordedOrTTS (render_of s) c s)"
proof (cases "cards s = []")
  case True
  then show ?thesis
    by (simp add: playEffect_def currentCard_def card_at_def)
next
  case False
  then show ?thesis
    using assms by (simp add: playEffect_def currentCard_def Let_def)
qed

lemma resumeBranch_frame:
  "folders (resumeBranch s) = folders s"
  "selectedFolderId (resumeBranch s) = selectedFolderId s"
  "index (resumeBranch s) = index s"
  "isPlaying (resumeBranch s) = True"
  "isUnlocked (resumeBranch s) = isUnlocked s"
  "shuffle (resumeBranch s) = shuffle s"
  "ttsRate (resumeBranch s) = ttsRate s"
  "repeatCount (resumeBranch s) = repeatCount s"
  "preferAudio (resumeBranch s) = preferAudio s"
  "readDescription (resumeBranch s) = readDescription s"
  "repeatRemainRef (resumeBranch s) = repeatCount s"
  "orderRef (resumeBranch s) = orderRef s"
  by (simp_all add: resumeBranch_def Let_def playRecordedOrTTS_frame split: option.splits)

lemma step_resume:
  assumes "\<not> isPlaying s"
  shows "step ClickPlayPause s = playEffect (resumeBranch s)"
proof -
  have "selectedFolder (resumeBranch s) = selectedFolder s"
    by (rule selectedFolder_cong) (simp_all add: resumeBranch_frame)
  then have "commit (\<lambda>k. 0) s (resumeBranch s) = playEffect (resumeBranch s)"
    using assms by (simp add: commit_play_only resumeBranch_frame)
  then show ?thesis
    using assms by (simp add: step_def playPauseClick_def)
qed

lemma render_of_resumeBranch: "render_of (resumeBranch s) = (render_of s)\<lparr>r_isPlaying := True\<rparr>"
proof -
  have "cards (resumeBranch s) = cards s"
    by (rule cards_cong) (simp_all add: resumeBranch_frame)
  then show ?thesis
    by (simp add: render_of_def resumeBranch_frame)
qed

lemma step_resume_card:
  assumes "\<not> isPlaying s" and "currentCard s = Some c"
  shows "step ClickPlayPause s =
    playRecordedOrTTS ((render_of s)\<lparr>r_isPlaying := True\<rparr>) c
      (playRecordedOrTTS (render_of s) c (s\<lparr>isPlaying := True, repeatRemainRef := repeatCount s\<rparr>))"
proof -
  have r: "resumeBranch s
      = playRecordedOrTTS (render_of s) c (s\<lparr>isPlaying := True, repeatRemainRef := repeatCount s\<rparr>)"
    using assms(2) by (simp add: resumeBranch_def)
  have "currentCard (resumeBranch s) = currentCard s"
    by (rule currentCard_cong) (simp_all add: resumeBranch_frame)
  then have "playEffect (resumeBranch s)
      = playRecordedOrTTS ((render_of s)\<lparr>r_isPlaying := True\<rparr>) c (resumeBranch s)"
    using assms(2) by (simp add: playEffect_playing resumeBranch_frame render_of_resumeBranch)
  then show ?thesis
    unfolding step_resume [OF assms(1)] by (simp only: r)
qed

lemma step_replay: "step ClickReplay s = replayClick s"
proof -
  have f: "folders (replayClick s) = folders s" "selectedFolderId (replayClick s) = selectedFolderId s"
    "shuffle (replayClick s) = shuffle s" "index (replayClick s) = index s"
    "repeatCount (replayClick s) = repeatCount s" "ttsRate (replayClick s) = ttsRate s"
    "preferAudio (replayClick s) = preferAudio s" "isPlaying (replayClick s) = isPlaying s"
    by (simp_all add: replayClick_def playRecordedOrTTS_frame split: option.splits)
  have "selectedFolder (replayClick s) = selectedFolder s"
    using f(1,2) by (rule selectedFolder_cong)
  then have "commit (\<lambda>k. 0) s (replayClick s) = replayClick s"
    using f by (intro commit_same)
  then show ?thesis
    by (simp add: step_def)
qed

lemma step_unlock: "step ClickUnlock s = s\<lparr>isUnlocked := True\<rparr>"
proof -
  have "selectedFolder (s\<lparr>isUnlocked := True\<rparr>) = selectedFolder s"
    by (rule selectedFolder_cong) simp_all
  then have "commit (\<lambda>k. 0) s (s\<lparr>isUnlocked := True\<rparr>) = s\<lparr>isUnlocked := True\<rparr>"
    by (intro commit_same) simp_all
  then show ?thesis
    by (simp add: step_def unlockAudio_def)
qed

lemma step_readDescription: "step (SetReadDescription b) s = s\<lparr>readDescription := b\<rparr>"
proof -
  have "selectedFolder (s\<lparr>readDescription := b\<rparr>) = selectedFolder s"
    by (rule selectedFolder_cong) simp_all
  then have "commit (\<lambda>k. 0) s (s\<lparr>readDescription := b\<rparr>) = s\<lparr>readDescription := b\<rparr>"
    by (intro commit_same) simp_all
  then show ?thesis
    by (simp add: step_def)
qed

section \<open>Pause, resume and replay\<close>

lemma mount_more:
  "shuffle (mount fs st rnd) = loadBool (st_shuffle st) False"
  "orderRef (mount fs st rnd)
     = reorder rnd (loadBool (st_shuffle st) False) (cards (mount fs st rnd))"
  "plays (mount fs st rnd) = []"
  "utts (mount fs st rnd) = []"
  "audioCache (mount fs st rnd) = (\<lambda>url. (None, None))"
  "ttsRate (mount fs st rnd) = loadNumber (st_rate st) 1"
proof -
  let ?s0 = "\<lparr>folders = fs, selectedFolderId = st_lastFolder st, index = Some 0,
                isPlaying = False, isUnlocked = False,
                shuffle = loadBool (st_shuffle st) False,
                ttsRate = loadNumber (st_rate st) 1,
                repeatCount = clampRepeat (loadNumber (st_repeat st) 1), preferAudio = True,
                readDescription = loadBool (st_readDesc st) False,
                repeatRemainRef = clampRepeat (loadNumber (st_repeat st) 1), orderRef = [],
                audioCache = (\<lambda>url. (None, None)), plays = [], utts = [], trace = []\<rparr>"
  have m: "mount fs st rnd = resetEffect (orderEffect rnd ?s0)"
    by (simp add: mount_def Let_def playEffect_def resetEffect_def orderEffect_def)
  have c: "cards (mount fs st rnd) = cards ?s0"
    by (rule cards_cong) (simp_all add: mount_frame)
  show "shuffle (mount fs st rnd) = loadBool (st_shuffle st) False"
    "plays (mount fs st rnd) = []" "utts (mount fs st rnd) = []"
    "audioCache (mount fs st rnd) = (\<lambda>url. (None, None))"
    "ttsRate (mount fs st rnd) = loadNumber (st_rate st) 1"
    unfolding m by (simp_all add: resetEffect_def orderEffect_def)
  show "orderRef (mount fs st rnd)
     = reorder rnd (loadBool (st_shuffle st) False) (cards (mount fs st rnd))"
    unfolding c unfolding m by (simp add: resetEffect_def orderEffect_def)
qed

lemma sample_cards:
  "st_lastFolder st = None \<Longrightarrow>
   cards (mount SAMPLE_FOLDERS st rnd) = folder_cards (hd SAMPLE_FOLDERS)"
  by (simp add: cards_def selectedFolder_def mount_frame SAMPLE_FOLDERS_def)

lemma sample_current:
  assumes "st_lastFolder st = None" and "st_shuffle st = None"
  shows "currentCard (mount SAMPLE_FOLDERS st rnd) = Some SAMPLE_CARD"
proof -
  have l: "length (cards (mount SAMPLE_FOLDERS st rnd)) = 2"
    unfolding sample_cards [OF assms(1)] by (simp add: SAMPLE_FOLDERS_def)
  have o: "orderRef (mount SAMPLE_FOLDERS st rnd) = [0, 1]"
    using assms(2) by (simp add: mount_more loadBool_def reorder_def l upt_rec)
  show ?thesis
    unfolding currentCard_def Let_def o sample_cards [OF assms(1)]
    by (simp add: mount_frame SAMPLE_CARD_def SAMPLE_FOLDERS_def js_rem_def
        logicalIndexToReal_def card_at_def)
qed

lemma render_of_pauseBranch: "render_of (pauseBranch s) = (render_of s)\<lparr>r_isPlaying := False\<rparr>"
proof -
  have "cards (pauseBranch s) = cards s"
    by (rule cards_cong) (simp_all add: pauseBranch_frame)
  then show ?thesis
    by (simp add: render_of_def pauseBranch_frame)
qed

lemma trace_step_resume:
  assumes "\<not> isPlaying s" and "currentCard s = Some c" and "isUnlocked s"
  shows "trace (step ClickPlayPause s) = trace s
      @ [CancelSpeech, term_unit (render_of s) c,
         CancelSpeech, term_unit ((render_of s)\<lparr>r_isPlaying := True\<rparr>) c]"
  unfolding step_resume_card [OF assms(1,2)]
  using assms(3) by (simp add: trace_playRecordedOrTTS render_of_def)

lemma trace_replay:
  assumes "currentCard s = Some c" and "isUnlocked s"
  shows "trace (step ClickReplay s) = trace s @ [CancelSpeech, term_unit (render_of s) c]"
  unfolding step_replay
  using assms by (simp add: replayClick_def trace_playRecordedOrTTS render_of_def)

text \<open>
  Pause directly followed by resume or by replay. In an unlocked session that plays a
  card, whatever the remaining counter is: the pause press leaves the counter alone; the
  resume press right after it sets the counter to the configured count, keeps the card
  and starts a unit of its term (once from the handler and once more, superseding it,
  from the play effect); the replay press right after the pause, or without it, sets the
  counter to the configured count and starts a unit of the term of the same card. The
  counter is never left at its value from before.
\<close>

lemma resume_restarts_count:
  assumes "isUnlocked s" and "currentCard s = Some c" and "isPlaying s"
  shows "\<not> isPlaying (step ClickPlayPause s)
    \<and> repeatRemainRef (step ClickPlayPause s) = repeatRemainRef s
    \<and> isPlaying (step ClickPlayPause (step ClickPlayPause s))
    \<and> repeatRemainRef (step ClickPlayPause (step ClickPlayPause s)) = repeatCount s
    \<and> currentCard (step ClickPlayPause (step ClickPlayPause s)) = Some c
    \<and> trace (step ClickPlayPause (step ClickPlayPause s))
        = trace (step ClickPlayPause s)
          @ [CancelSpeech, term_unit ((render_of s)\<lparr>r_isPlaying := False\<rparr>) c,
             CancelSpeech, term_unit (render_of s) c]
    \<and> \<not> isPlaying (step ClickReplay (step ClickPlayPause s))
    \<and> repeatRemainRef (step ClickReplay (step ClickPlayPause s)) = repeatCount s
    \<and> currentCard (step ClickReplay (step ClickPlayPause s)) = Some c
    \<and> trace (step ClickReplay (step ClickPlayPause s))
        = trace (step ClickPlayPause s)
          @ [CancelSpeech, term_unit ((render_of s)\<lparr>r_isPlaying := False\<rparr>) c]
    \<and> repeatRemainRef (step ClickReplay s) = repeatCount s
    \<and> trace (step ClickReplay s) = trace s @ [CancelSpeech, term_unit (render_of s) c]"
proof -
  let ?p = "pauseBranch s"
  have p: "step ClickPlayPause s = ?p"
    using assms(3) by (rule step_pause)
  have np: "\<not> isPlaying ?p" and up: "isUnlocked ?p"
    using assms(1) by (simp_all add: pauseBranch_frame)
  have cp: "currentCard ?p = Some c"
    using currentCard_cong [of ?p s] assms(2) by (simp add: pauseBranch_frame)
  have rp: "(render_of ?p)\<lparr>r_isPlaying := True\<rparr> = render_of s"
    unfolding render_of_pauseBranch using assms(3) by (simp add: render_of_def)
  let ?q = "step ClickPlayPause ?p"
  have q: "?q = playEffect (resumeBranch ?p)"
    using np by (rule step_resume)
  have qf: "isPlaying ?q" "repeatRemainRef ?q = repeatCount s"
    "folders ?q = folders s" "selectedFolderId ?q = selectedFolderId s"
    "index ?q = index s" "orderRef ?q = orderRef s"
    unfolding q by (simp_all add: playEffect_frame resumeBranch_frame pauseBranch_frame)
  have cq: "currentCard ?q = Some c"
    using currentCard_cong [OF qf(3-6)] assms(2) by simp
  have tq: "trace ?q = trace ?p
          @ [CancelSpeech, term_unit ((render_of s)\<lparr>r_isPlaying := False\<rparr>) c,
             CancelSpeech, term_unit (render_of s) c]"
    using trace_step_resume [OF np cp up] by (simp add: rp) (simp add: render_of_pauseBranch)
  let ?v = "step ClickReplay ?p"
  have v: "?v = replayClick ?p"
    by (rule step_replay)
  have vf: "\<not> isPlaying ?v" "repeatRemainRef ?v = repeatCount s"
    "folders ?v = folders s" "selectedFolderId ?v = selectedFolderId s"
    "index ?v = index s" "orderRef ?v = orderRef s"
    unfolding v using cp
    by (simp_all add: replayClick_def playRecordedOrTTS_frame pauseBranch_frame)
  have cv: "currentCard ?v = Some c"
    using currentCard_cong [OF vf(3-6)] assms(2) by simp
  have tv: "trace ?v = trace ?p
          @ [CancelSpeech, term_unit ((render_of s)\<lparr>r_isPlaying := False\<rparr>) c]"
    using trace_replay [OF cp up] by (simp add: render_of_pauseBranch)
  have w: "repeatRemainRef (step ClickReplay s) = repeatCount s"
    unfolding step_replay using assms(2) by (simp add: replayClick_def playRecordedOrTTS_frame)
  have tw: "trace (step ClickReplay s) = trace s @ [CancelSpeech, term_unit (render_of s) c]"
    using assms(2,1) by (rule trace_replay)
  have rs: "repeatRemainRef ?p = repeatRemainRef s"
    by (simp add: pauseBranch_frame)
  show ?thesis
    unfolding p using np rs qf(1,2) cq tq vf(1,2) cv tv w tw by blast
qed

lemma sample_playing:
  defines "s \<equiv> run [ClickUnlock, ClickPlayPause, AudioEnded ''/audio/0001_ko-KR.mp3'']
                   (mount SAMPLE_FOLDERS repeat2_storage no_draws)"
  shows "isUnlocked s" and "isPlaying s" and "currentCard s = Some SAMPLE_CARD"
    and "repeatRemainRef s = 1" and "repeatCount s = 2"
proof -
  let ?s0 = "mount SAMPLE_FOLDERS repeat2_storage no_draws"
  let ?s1 = "?s0\<lparr>isUnlocked := True\<rparr>"
  let ?r0 = "render_of ?s1"
  let ?r1 = "(render_of ?s1)\<lparr>r_isPlaying := True\<rparr>"
  define s2 where "s2 = playRecordedOrTTS ?r1 SAMPLE_CARD
      (playRecordedOrTTS ?r0 SAMPLE_CARD (?s1\<lparr>isPlaying := True, repeatRemainRef := repeatCount ?s1\<rparr>))"
  have st: "st_lastFolder repeat2_storage = None" "st_shuffle repeat2_storage = None"
    by (simp_all add: repeat2_storage_def empty_storage_def)
  have c0: "currentCard ?s0 = Some SAMPLE_CARD"
    using st by (rule sample_current)
  have c1: "currentCard ?s1 = Some SAMPLE_CARD"
    using currentCard_cong [of ?s1 ?s0] c0 by simp
  have n1: "\<not> isPlaying ?s1"
    by (simp add: mount_frame)
  have s2: "step ClickPlayPause ?s1 = s2"
    unfolding s2_def using n1 c1 by (rule step_resume_card)
  have ra: "r_isUnlocked ?r1" "r_preferAudio ?r1"
    by (simp_all add: render_of_def mount_frame)
  have rc: "repeatCount ?s1 = 2"
    by (simp add: mount_frame repeat2_storage_def empty_storage_def loadNumber_def clampRepeat_def)
  have a2: "audioCache s2 (audioUrlOf SAMPLE_CARD)
      = (Some (AudioUnitEnd SAMPLE_CARD ?r1), Some (AudioUnitEnd SAMPLE_CARD ?r1))"
    unfolding s2_def audio_start [OF ra] by simp
  have f2: "repeatRemainRef s2 = 2" "isUnlocked s2" "isPlaying s2" "repeatCount s2 = 2"
    "folders s2 = folders ?s0" "selectedFolderId s2 = selectedFolderId ?s0"
    "index s2 = index ?s0" "orderRef s2 = orderRef ?s0"
    unfolding s2_def using rc by (simp_all add: playRecordedOrTTS_frame)
  have "1 < repeatRemainRef s2"
    by (simp add: f2)
  with a2 have s3: "step (AudioEnded (audioUrlOf SAMPLE_CARD)) s2 =
    s2\<lparr>repeatRemainRef := repeatRemainRef s2 - 1,
      plays := plays s2 @ [Some (AudioUnitEnd SAMPLE_CARD ?r1)],
      trace := trace s2 @ [PlayAudio (audioUrlOf SAMPLE_CARD)]\<rparr>"
    by (rule audio_repeat_step)
  have s: "s = step (AudioEnded (audioUrlOf SAMPLE_CARD)) s2"
    unfolding s_def by (simp add: run_Cons run_Nil step_unlock s2 sample_url)
  show "isUnlocked s" "isPlaying s" "repeatRemainRef s = 1" "repeatCount s = 2"
    unfolding s s3 by (simp_all add: f2)
  have "currentCard s = currentCard ?s0"
    unfolding s s3 by (rule currentCard_cong) (simp_all add: f2)
  then show "currentCard s = Some SAMPLE_CARD"
    by (simp add: c0)
qed

lemma resume_restarts_count_sample:
  "isUnlocked (run [ClickUnlock, ClickPlayPause, AudioEnded ''/audio/0001_ko-KR.mp3'']
                   (mount SAMPLE_FOLDERS repeat2_storage no_draws))
   \<and> currentCard (run [ClickUnlock, ClickPlayPause, AudioEnded ''/audio/0001_ko-KR.mp3'']
                   (mount SAMPLE_FOLDERS repeat2_storage no_draws)) = Some SAMPLE_CARD
   \<and> isPlaying (run [ClickUnlock, ClickPlayPause, AudioEnded ''/audio/0001_ko-KR.mp3'']
                   (mount SAMPLE_FOLDERS repeat2_storage no_draws))
   \<and> repeatRemainRef (run [ClickUnlock, ClickPlayPause, AudioEnded ''/audio/0001_ko-KR.mp3'']
                   (mount SAMPLE_FOLDERS repeat2_storage no_draws)) = 1
   \<and> repeatRemainRef (step ClickPlayPause (step ClickPlayPause
         (run [ClickUnlock, ClickPlayPause, AudioEnded ''/audio/0001_ko-KR.mp3'']
                   (mount SAMPLE_FOLDERS repeat2_storage no_draws)))) = 2"
proof -
  let ?s = "run [ClickUnlock, ClickPlayPause, AudioEnded ''/audio/0001_ko-KR.mp3'']
                   (mount SAMPLE_FOLDERS repeat2_storage no_draws)"
  note h = sample_playing
  from resume_restarts_count [OF h(1) h(3) h(2)]
  have "repeatRemainRef (step ClickPlayPause (step ClickPlayPause ?s)) = repeatCount ?s"
    by blast
  then have "repeatRemainRef (step ClickPlayPause (step ClickPlayPause ?s)) = 2"
    by (simp only: h(5))
  with h(1,3,2,4) show ?thesis by blast
qed

section \<open>Narrating the description\<close>

lemma find_never: "find (\<lambda>x. False) xs = None"
  by (induction xs) simp_all

lemma mount_current:
  assumes "st_lastFolder st = None" and "st_shuffle st = None"
    and "fs = f # fs'" and "folder_cards f = c # cs"
  shows "cards (mount fs st rnd) = c # cs"
    and "orderRef (mount fs st rnd) = [0..<Suc (length cs)]"
    and "currentCard (mount fs st rnd) = Some c"
proof -
  show c: "cards (mount fs st rnd) = c # cs"
    using assms(1,3,4) by (simp add: cards_def selectedFolder_def mount_frame find_never)
  show o: "orderRef (mount fs st rnd) = [0..<Suc (length cs)]"
    using assms(2) by (simp add: mount_more c loadBool_def reorder_def)
  have "[0..<Suc (length cs)] ! 0 = 0"
    by (simp add: upt_rec)
  then show "currentCard (mount fs st rnd) = Some c"
    unfolding currentCard_def Let_def o c
    by (simp add: mount_frame js_rem_def logicalIndexToReal_def card_at_def)
qed

lemma currentCard_cong2:
  assumes "cards t = cards s" "index t = index s" "orderRef t = orderRef s"
  shows "currentCard t = currentCard s"
  unfolding currentCard_def assms ..

lemma commit_no_reorder:
  assumes "selectedFolder new = selectedFolder old" "shuffle new = shuffle old"
  shows "commit rnd old new =
    (let s2 = (if index new \<noteq> index old \<or> selectedFolderId new \<noteq> selectedFolderId old
                   \<or> repeatCount new \<noteq> repeatCount old
               then resetEffect new else new)
     in if index new \<noteq> index old \<or> ttsRate new \<noteq> ttsRate old
           \<or> preferAudio new \<noteq> preferAudio old \<or> isPlaying new \<noteq> isPlaying old
        then playEffect s2 else s2)"
  unfolding commit_def Let_def assms by simp

lemma termDone_description:
  assumes "r_readDescription r" and "descriptionText c \<noteq> []"
  shows "termDone r c s =
    s\<lparr>utts := utts s @ [(Some (DescriptionEnd r), Some (DescriptionEnd r))],
      trace := trace s @ [CancelSpeech,
         Speak DescriptionUnit (descriptionText c) (Some KoKR) (rate_of r c)]\<rparr>"
  using assms by (simp add: termDone_def speakDescriptionThenNext_def Let_def)

lemma audio_done_description_step:
  assumes "fst (audioCache s (audioUrlOf c)) = Some (AudioUnitEnd c r)"
    and "\<not> 1 < repeatRemainRef s" and "r_readDescription r" and "descriptionText c \<noteq> []"
  shows "step (AudioEnded (audioUrlOf c)) s =
    s\<lparr>utts := utts s @ [(Some (DescriptionEnd r), Some (DescriptionEnd r))],
      trace := trace s @ [CancelSpeech,
         Speak DescriptionUnit (descriptionText c) (Some KoKR) (rate_of r c)]\<rparr>"
proof -
  let ?t = "s\<lparr>utts := utts s @ [(Some (DescriptionEnd r), Some (DescriptionEnd r))],
      trace := trace s @ [CancelSpeech,
         Speak DescriptionUnit (descriptionText c) (Some KoKR) (rate_of r c)]\<rparr>"
  have d: "deliver (AudioEnded (audioUrlOf c)) s = ?t"
    unfolding audio_done_handler [OF assms(1,2)] using assms(3,4) by (rule termDone_description)
  have "selectedFolder ?t = selectedFolder s"
    by (rule selectedFolder_cong) simp_all
  then have "commit (\<lambda>k. 0) s ?t = ?t"
    by (intro commit_same) simp_all
  then show ?thesis
    unfolding step_def d by simp
qed

lemma description_end_handler:
  assumes "m < length (utts s)"
  shows "fst (utts s ! m) = Some (DescriptionEnd r) \<Longrightarrow>
      deliver (UtterEnd m) s = (if r_isPlaying r then setIndexNext r s else s)"
    and "snd (utts s ! m) = Some (DescriptionEnd r) \<Longrightarrow>
      deliver (UtterError m) s = (if r_isPlaying r then setIndexNext r s else s)"
  using assms by (simp_all add: run_slot_def)

lemma step_description_error:
  assumes "m < length (utts s)" and "snd (utts s ! m) = Some (DescriptionEnd r)"
    and "r_isPlaying r"
  shows "index (step (UtterError m) s) = js_rem (js_add (index s) 1) (int (length (r_cards r)))"
    and "isPlaying (step (UtterError m) s) = isPlaying s"
  unfolding step_def commit_frame description_end_handler(2) [OF assms(1,2)]
  using assms(3) by (simp_all add: setIndexNext_def Let_def)

lemma step_openFolder_same:
  assumes "selectedFolder (openFolder fid a s) = selectedFolder s" and "index s = Some 0"
    and "selectedFolderId s \<noteq> Some fid"
  shows "step (OpenFolder fid a rnd) s =
    (if a \<noteq> isPlaying s then playEffect (resetEffect (openFolder fid a s))
     else resetEffect (openFolder fid a s))"
proof -
  define new where "new = openFolder fid a s"
  have f: "shuffle new = shuffle s" "index new = index s"
    "selectedFolderId new \<noteq> selectedFolderId s"
    "ttsRate new = ttsRate s" "preferAudio new = preferAudio s"
    "isPlaying new = a"
    using assms(2,3) by (simp_all add: new_def openFolder_def)
  have sf: "selectedFolder new = selectedFolder s"
    using assms(1) by (simp add: new_def)
  have r: "(index new \<noteq> index s \<or> selectedFolderId new \<noteq> selectedFolderId s
      \<or> repeatCount new \<noteq> repeatCount s) = True"
    using f(3) by simp
  have p: "(index new \<noteq> index s \<or> ttsRate new \<noteq> ttsRate s
           \<or> preferAudio new \<noteq> preferAudio s \<or> isPlaying new \<noteq> isPlaying s)
      = (a \<noteq> isPlaying s)"
    by (simp add: f)
  have "commit rnd s new =
    (if a \<noteq> isPlaying s then playEffect (resetEffect new) else resetEffect new)"
    unfolding commit_no_reorder [OF sf f(1)] Let_def r p by simp
  then show ?thesis
    by (simp add: step_def new_def)
qed

text \<open>
  In a well-behaved run the description is narrated as the specification says: after the
  \<open>N\<close> units of the term one utterance of the trimmed description, its language the
  constant \<open>ko-KR\<close> whatever the card's own language, and the end or the error of that
  utterance advances once, if the closure was created by a render that was playing.
\<close>

lemma description_once_then_advance:
  assumes "0 < N" and "repeatRemainRef s = of_nat N" and "r_isUnlocked r"
    and "r_readDescription r" and "descriptionText c \<noteq> []"
  defines "t \<equiv> run (term_completions r c s (N - 1)) (playRecordedOrTTS r c s)"
  defines "u \<equiv> deliver (term_completions r c s N ! (N - 1)) t"
  shows "trace u = trace s @ [CancelSpeech] @ replicate N (term_unit r c)
            @ [CancelSpeech, Speak DescriptionUnit (descriptionText c) (Some KoKR) (rate_of r c)]"
    and "index u = index s"
    and "deliver (UtterEnd (length (utts t))) u = (if r_isPlaying r then setIndexNext r u else u)"
    and "deliver (UtterError (length (utts t))) u = (if r_isPlaying r then setIndexNext r u else u)"
proof -
  have k: "N - 1 < N" "Suc (N - 1) = N"
    using assms(1) by simp_all
  have u: "u = t\<lparr>utts := utts t @ [(Some (DescriptionEnd r), Some (DescriptionEnd r))],
      trace := trace t @ [CancelSpeech,
         Speak DescriptionUnit (descriptionText c) (Some KoKR) (rate_of r c)]\<rparr>"
    unfolding u_def t_def last_unit [OF assms(3,2,1)]
    using assms(4,5) by (rule termDone_description)
  have t: "index t = index s" "trace t = trace s @ [CancelSpeech] @ replicate N (term_unit r c)"
    unfolding t_def using prefix_facts(2,3) [OF assms(3,2) k(1), of c] k(2) by simp_all
  show "trace u = trace s @ [CancelSpeech] @ replicate N (term_unit r c)
            @ [CancelSpeech, Speak DescriptionUnit (descriptionText c) (Some KoKR) (rate_of r c)]"
    unfolding u by (simp add: t)
  show "index u = index s"
    unfolding u by (simp add: t)
  have l: "length (utts t) < length (utts u)"
    unfolding u by simp
  have b: "fst (utts u ! length (utts t)) = Some (DescriptionEnd r)"
    "snd (utts u ! length (utts t)) = Some (DescriptionEnd r)"
    unfolding u by simp_all
  show "deliver (UtterEnd (length (utts t))) u = (if r_isPlaying r then setIndexNext r u else u)"
    using l b(1) by (rule description_end_handler(1))
  show "deliver (UtterError (length (utts t))) u = (if r_isPlaying r then setIndexNext r u else u)"
    using l b(2) by (rule description_end_handler(2))
qed

lemma test_deck_shape:
  "TEST_DECK = hd TEST_DECK # []"
  "folder_cards (hd TEST_DECK) = TEST_CARD # tl (folder_cards (hd TEST_DECK))"
  "length (tl (folder_cards (hd TEST_DECK))) = 1"
  "folder_id (hd TEST_DECK) = 7"
  by (simp_all add: TEST_DECK_def TEST_CARD_def)

lemma test_card_simps:
  "descriptionText TEST_CARD = ascii ''test''"
  "card_id TEST_CARD = SafeInt (Abs_safe_int 1)"
  "lang_of TEST_CARD = Some EnUS"
  by (simp_all add: TEST_CARD_def TEST_DECK_def descriptionText_def js_trim_def ascii_def
      js_space_def lang_of_def)

lemma test_url: "audioUrlOf TEST_CARD = ''/audio/0001_en-US.mp3''"
proof -
  have "audioFileName TEST_CARD = ''0001_en-US.mp3''"
    by (simp add: audioFileName_eq test_card_simps js_String_def small_ids pad4 zero_padded4_def
        digit_char_def)
  moreover have "encodeURIComponent (audioFileName TEST_CARD) = audioFileName TEST_CARD"
    by (rule encode_unreserved) (rule audioFileName_unreserved [OF test_card_simps(2)])
  ultimately show ?thesis
    by (simp add: audioUrlOf_def)
qed

lemma selectedFolder_open:
  assumes "folders s = f # fs" and "selectedFolderId s = None"
  shows "selectedFolder (openFolder (folder_id f) a s) = selectedFolder s"
  using assms by (simp add: selectedFolder_def openFolder_def find_never)

lemma cards_selectedFolder: "selectedFolder t = selectedFolder s \<Longrightarrow> cards t = cards s"
  by (simp add: cards_def)

lemma opened_test_deck:
  defines "s \<equiv> run [OpenFolder 7 False no_draws, ClickUnlock]
                   (mount TEST_DECK readDesc_storage no_draws)"
  shows "\<not> isPlaying s" and "isUnlocked s" and "currentCard s = Some TEST_CARD"
    and "readDescription s" and "preferAudio s" and "repeatCount s = 1"
    and "length (cards s) = 2" and "utts s = []" and "index s = Some 0"
proof -
  let ?s0 = "mount TEST_DECK readDesc_storage no_draws"
  define s1 where "s1 = resetEffect (openFolder 7 False ?s0)"
  have st: "st_lastFolder readDesc_storage = None" "st_shuffle readDesc_storage = None"
    "st_repeat readDesc_storage = None" "st_readDesc readDesc_storage = Some ''true''"
    by (simp_all add: readDesc_storage_def empty_storage_def)
  note m = mount_current [OF st(1,2) test_deck_shape(1,2), of no_draws]
  have sf: "selectedFolder (openFolder 7 False ?s0) = selectedFolder ?s0"
    using selectedFolder_open [of ?s0 "hd TEST_DECK" "[]" False] test_deck_shape(1,4) st(1)
    by (simp add: mount_frame)
  have "step (OpenFolder 7 False no_draws) ?s0 = s1"
    unfolding s1_def using step_openFolder_same [OF sf, of no_draws] st(1)
    by (simp add: mount_frame)
  then have s: "s = s1\<lparr>isUnlocked := True\<rparr>"
    unfolding s_def by (simp add: run_Cons run_Nil step_unlock)
  have "selectedFolder s = selectedFolder (openFolder 7 False ?s0)"
    unfolding s s1_def by (rule selectedFolder_cong) (simp_all add: resetEffect_def)
  then have "selectedFolder s = selectedFolder ?s0"
    by (simp only: sf)
  then have c: "cards s = cards ?s0"
    by (rule cards_selectedFolder)
  have f: "index s = index ?s0" "orderRef s = orderRef ?s0"
    unfolding s s1_def by (simp_all add: resetEffect_def openFolder_def mount_frame)
  show "currentCard s = Some TEST_CARD"
    using currentCard_cong2 [OF c f] m(3) by simp
  show "length (cards s) = 2"
    unfolding c m(1) by (simp add: TEST_DECK_def)
  show "\<not> isPlaying s" "isUnlocked s" "readDescription s" "preferAudio s" "repeatCount s = 1"
    "utts s = []" "index s = Some 0"
    unfolding s s1_def using st(3,4)
    by (simp_all add: resetEffect_def openFolder_def mount_frame mount_more loadBool_def
        loadNumber_def clampRepeat_def)
qed

text \<open>
  Claim C2 at a failing input. The sample deck of two cards is opened, audio is unlocked,
  play is pressed, the audio of the first card ends and its description is being
  narrated. The user presses pause, whose \<open>speechSynthesis.cancel()\<close> makes the platform
  report the utterance as interrupted. The \<open>onerror\<close> closure of the utterance still
  holds \<open>isPlaying = true\<close> from the render that created it, and the pause branch unbinds
  the audio handlers only: the position moves from 0 to 1 while the session is paused.
\<close>

theorem pause_during_description_advances:
  "isPlaying (run [OpenFolder 7 False no_draws, ClickUnlock, ClickPlayPause,
                   AudioEnded ''/audio/0001_en-US.mp3'']
               (mount TEST_DECK readDesc_storage no_draws))
   \<and> index (run [OpenFolder 7 False no_draws, ClickUnlock, ClickPlayPause,
                   AudioEnded ''/audio/0001_en-US.mp3'', ClickPlayPause]
               (mount TEST_DECK readDesc_storage no_draws)) = Some 0
   \<and> \<not> isPlaying (run [OpenFolder 7 False no_draws, ClickUnlock, ClickPlayPause,
                   AudioEnded ''/audio/0001_en-US.mp3'', ClickPlayPause]
               (mount TEST_DECK readDesc_storage no_draws))
   \<and> index (run [OpenFolder 7 False no_draws, ClickUnlock, ClickPlayPause,
                   AudioEnded ''/audio/0001_en-US.mp3'', ClickPlayPause, UtterError 0]
               (mount TEST_DECK readDesc_storage no_draws)) = Some 1
   \<and> \<not> isPlaying (run [OpenFolder 7 False no_draws, ClickUnlock, ClickPlayPause,
                   AudioEnded ''/audio/0001_en-US.mp3'', ClickPlayPause, UtterError 0]
               (mount TEST_DECK readDesc_storage no_draws))"
proof -
  define s where "s = run [OpenFolder 7 False no_draws, ClickUnlock]
                   (mount TEST_DECK readDesc_storage no_draws)"
  note o = opened_test_deck [folded s_def]
  let ?r0 = "render_of s"
  define r where "r = (render_of s)\<lparr>r_isPlaying := True\<rparr>"
  define s3 where "s3 = playRecordedOrTTS r TEST_CARD
      (playRecordedOrTTS ?r0 TEST_CARD (s\<lparr>isPlaying := True, repeatRemainRef := repeatCount s\<rparr>))"
  have r: "r_isUnlocked r" "r_preferAudio r" "r_isPlaying r" "r_readDescription r"
    "length (r_cards r) = 2"
    using o by (simp_all add: r_def render_of_def)
  have e3: "step ClickPlayPause s = s3"
    unfolding s3_def r_def using o(1,3) by (rule step_resume_card)
  have a3: "fst (audioCache s3 (audioUrlOf TEST_CARD)) = Some (AudioUnitEnd TEST_CARD r)"
    unfolding s3_def audio_start [OF r(1,2)] by simp
  have f3: "repeatRemainRef s3 = 1" "isPlaying s3" "index s3 = Some 0"
    unfolding s3_def using o by (simp_all add: playRecordedOrTTS_frame)
  have u3: "utts s3 = []"
    unfolding s3_def audio_start [OF r(1,2)]
    using o by (simp add: audio_start render_of_def)
  define s4 where "s4 = s3\<lparr>utts := utts s3 @ [(Some (DescriptionEnd r), Some (DescriptionEnd r))],
      trace := trace s3 @ [CancelSpeech,
         Speak DescriptionUnit (descriptionText TEST_CARD) (Some KoKR) (rate_of r TEST_CARD)]\<rparr>"
  have d: "descriptionText TEST_CARD \<noteq> []"
    by (simp add: test_card_simps ascii_def)
  have n3: "\<not> 1 < repeatRemainRef s3"
    by (simp add: f3)
  have e4: "step (AudioEnded (audioUrlOf TEST_CARD)) s3 = s4"
    unfolding s4_def using a3 n3 r(4) d by (rule audio_done_description_step)
  have f4: "isPlaying s4" "index s4 = Some 0" "utts s4 = [(Some (DescriptionEnd r), Some (DescriptionEnd r))]"
    unfolding s4_def using f3 u3 by simp_all
  have e5: "step ClickPlayPause s4 = pauseBranch s4"
    using f4(1) by (rule step_pause)
  have f5: "\<not> isPlaying (pauseBranch s4)" "index (pauseBranch s4) = Some 0"
    "0 < length (utts (pauseBranch s4))"
    "snd (utts (pauseBranch s4) ! 0) = Some (DescriptionEnd r)"
    using f4 by (simp_all add: pauseBranch_def)
  note e6 = step_description_error [OF f5(3,4) r(3)]
  have run4: "run [OpenFolder 7 False no_draws, ClickUnlock, ClickPlayPause,
                   AudioEnded ''/audio/0001_en-US.mp3'']
               (mount TEST_DECK readDesc_storage no_draws) = s4"
    using e3 e4 by (simp add: run_Cons run_Nil s_def test_url)
  have run5: "run [OpenFolder 7 False no_draws, ClickUnlock, ClickPlayPause,
                   AudioEnded ''/audio/0001_en-US.mp3'', ClickPlayPause]
               (mount TEST_DECK readDesc_storage no_draws) = pauseBranch s4"
    using e3 e4 e5 by (simp add: run_Cons run_Nil s_def test_url)
  have run6: "run [OpenFolder 7 False no_draws, ClickUnlock, ClickPlayPause,
                   AudioEnded ''/audio/0001_en-US.mp3'', ClickPlayPause, UtterError 0]
               (mount TEST_DECK readDesc_storage no_draws) = step (UtterError 0) (pauseBranch s4)"
    using e3 e4 e5 by (simp add: run_Cons run_Nil s_def test_url)
  have i6: "index (step (UtterError 0) (pauseBranch s4)) = Some 1"
    unfolding e6(1) f5(2) r(5) by (simp add: js_add_def js_rem_def)
  have p6: "\<not> isPlaying (step (UtterError 0) (pauseBranch s4))"
    unfolding e6(2) by (rule f5(1))
  show ?thesis
    unfolding run4 run5 run6 using f4(1) f5(1,2) i6 p6 by blast
qed

section \<open>One attempt, several reports\<close>

text \<open>A description of white space only is trimmed to the empty text.\<close>

lemma js_trim_blank: "\<forall>u \<in> set t. js_space u \<Longrightarrow> js_trim t = []"
proof -
  assume "\<forall>u \<in> set t. js_space u"
  then have d: "dropWhile js_space t = []"
    by (induction t) simp_all
  show ?thesis
    by (simp only: js_trim_def d rev.simps dropWhile.simps)
qed

text \<open>
  After \<open>playAudioOnce\<close>, each of the three reports the platform can make (the media
  ended, the element raised an error, the promise of \<open>play()\<close> was rejected) runs
  \<open>onEnd\<close> once, a failure exactly as a natural end. Only the \<open>catch\<close> is used up by
  running; the element's handlers stay bound.
\<close>

lemma playAudioOnce_single_report:
  "deliver (AudioEnded (audioUrlOf c)) (playAudioOnce c k s) = fire k (playAudioOnce c k s)"
  "deliver (AudioError (audioUrlOf c)) (playAudioOnce c k s) = fire k (playAudioOnce c k s)"
  "deliver (PlayRejected (length (plays s))) (playAudioOnce c k s)
     = fire k ((playAudioOnce c k s)\<lparr>plays := plays s @ [None]\<rparr>)"
  by (simp_all add: playAudioOnce_def Let_def run_slot_def)

lemma step_error_as_ended:
  assumes "snd (audioCache s url) = fst (audioCache s url)"
  shows "step (AudioError url) s = step (AudioEnded url) s"
  using assms by (simp add: step_def)

lemma rejected_done_handler:
  assumes "n < length (plays s)" and "plays s ! n = Some (AudioUnitEnd c r)"
    and "\<not> 1 < repeatRemainRef s" and "\<not> r_readDescription r" and "r_isPlaying r"
  shows "deliver (PlayRejected n) s = setIndexNext r (s\<lparr>plays := (plays s)[n := None]\<rparr>)"
  using assms by (simp add: run_slot_def advanceOrRepeat_def termDone_def)

lemma sample_deck_shape:
  "SAMPLE_FOLDERS = hd SAMPLE_FOLDERS # []"
  "folder_cards (hd SAMPLE_FOLDERS) = SAMPLE_CARD # tl (folder_cards (hd SAMPLE_FOLDERS))"
  "folder_id (hd SAMPLE_FOLDERS) = 100"
  by (simp_all add: SAMPLE_FOLDERS_def SAMPLE_CARD_def)

lemma autoplay_sample_deck:
  assumes "st_lastFolder st = None" and "st_shuffle st = None" and "st_readDesc st = None"
  defines "s \<equiv> run [OpenFolder 100 True no_draws, ClickUnlock]
                   (mount SAMPLE_FOLDERS st no_draws)"
  shows "isPlaying s" and "isUnlocked s" and "currentCard s = Some SAMPLE_CARD"
    and "\<not> readDescription s" and "preferAudio s"
    and "repeatCount s = clampRepeat (loadNumber (st_repeat st) 1)"
    and "length (cards s) = 2" and "plays s = []" and "index s = Some 0"
    and "filter starts_playback (trace s) = []"
    and "cards s = folder_cards (hd SAMPLE_FOLDERS)" and "orderRef s = [0, 1]"
    and "shuffle s = False"
proof -
  let ?s0 = "mount SAMPLE_FOLDERS st no_draws"
  define s1 where "s1 = resetEffect (openFolder 100 True ?s0)"
  note m = mount_current [OF assms(1,2) sample_deck_shape(1,2), of no_draws]
  have sf: "selectedFolder (openFolder 100 True ?s0) = selectedFolder ?s0"
    using selectedFolder_open [of ?s0 "hd SAMPLE_FOLDERS" "[]" True] sample_deck_shape(1,3)
      assms(1)
    by (simp add: mount_frame)
  have l1: "\<not> isUnlocked s1" "isPlaying s1"
    unfolding s1_def by (simp_all add: resetEffect_def openFolder_def mount_frame)
  have "playEffect s1 = s1"
    using l1 by (simp add: playEffect_playing playRecordedOrTTS_def render_of_def
        split: option.splits)
  then have "step (OpenFolder 100 True no_draws) ?s0 = s1"
    unfolding s1_def using step_openFolder_same [OF sf, of no_draws] assms(1)
    by (simp add: mount_frame)
  then have s: "s = s1\<lparr>isUnlocked := True\<rparr>"
    unfolding s_def by (simp add: run_Cons run_Nil step_unlock)
  have "selectedFolder s = selectedFolder (openFolder 100 True ?s0)"
    unfolding s s1_def by (rule selectedFolder_cong) (simp_all add: resetEffect_def)
  then have "selectedFolder s = selectedFolder ?s0"
    by (simp only: sf)
  then have c: "cards s = cards ?s0"
    by (rule cards_selectedFolder)
  have f: "index s = index ?s0" "orderRef s = orderRef ?s0"
    unfolding s s1_def by (simp_all add: resetEffect_def openFolder_def mount_frame)
  show "currentCard s = Some SAMPLE_CARD"
    using currentCard_cong2 [OF c f] m(3) by simp
  show "length (cards s) = 2"
    unfolding c m(1) by (simp add: SAMPLE_FOLDERS_def)
  show "cards s = folder_cards (hd SAMPLE_FOLDERS)"
    unfolding c m(1) by (simp add: SAMPLE_FOLDERS_def SAMPLE_CARD_def)
  show "orderRef s = [0, 1]"
    unfolding f(2) m(2) by (simp add: SAMPLE_FOLDERS_def upt_rec)
  show "shuffle s = False"
    unfolding s s1_def using assms(2)
    by (simp add: resetEffect_def openFolder_def mount_more loadBool_def)
  show "isPlaying s" "isUnlocked s" "\<not> readDescription s" "preferAudio s"
    "repeatCount s = clampRepeat (loadNumber (st_repeat st) 1)"
    "plays s = []" "index s = Some 0" "filter starts_playback (trace s) = []"
    unfolding s s1_def using assms(3)
    by (simp_all add: resetEffect_def openFolder_def mount_frame mount_more mount_trace
        loadBool_def)
qed

lemma repeat2_storage_simps:
  "st_lastFolder repeat2_storage = None" "st_shuffle repeat2_storage = None"
  "st_readDesc repeat2_storage = None"
  "clampRepeat (loadNumber (st_repeat repeat2_storage) 1) = 2"
  by (simp_all add: repeat2_storage_def empty_storage_def loadNumber_def clampRepeat_def)

text \<open>
  Claim C4 at a failing input. With two repeats configured, the sample deck is opened
  with autoplay, audio is unlocked and the first card is replayed: one attempt is under
  way. Its file does not load, for which the platform both fires \<open>error\<close> at the element
  and rejects the promise of \<open>play()\<close>. The \<open>onerror\<close> handler runs \<open>onEnd\<close>, which
  takes one repeat and starts the second attempt; the \<open>catch\<close> of the first attempt then
  runs \<open>onEnd\<close> again, which finds the counter at 1 and advances. One attempt has
  been reported, \<open>onEnd\<close> has run twice, and the deck has moved on before the second
  attempt has reported anything.
\<close>

theorem failed_load_reports_twice:
  "repeatRemainRef (run [OpenFolder 100 True no_draws, ClickUnlock, ClickReplay]
               (mount SAMPLE_FOLDERS repeat2_storage no_draws)) = 2
   \<and> filter starts_playback (trace (run [OpenFolder 100 True no_draws, ClickUnlock, ClickReplay]
               (mount SAMPLE_FOLDERS repeat2_storage no_draws)))
       = [PlayAudio ''/audio/0001_ko-KR.mp3'']
   \<and> index (run [OpenFolder 100 True no_draws, ClickUnlock, ClickReplay,
                  AudioError ''/audio/0001_ko-KR.mp3'']
               (mount SAMPLE_FOLDERS repeat2_storage no_draws)) = Some 0
   \<and> repeatRemainRef (run [OpenFolder 100 True no_draws, ClickUnlock, ClickReplay,
                  AudioError ''/audio/0001_ko-KR.mp3'']
               (mount SAMPLE_FOLDERS repeat2_storage no_draws)) = 1
   \<and> index (run [OpenFolder 100 True no_draws, ClickUnlock, ClickReplay,
                  AudioError ''/audio/0001_ko-KR.mp3'', PlayRejected 0]
               (mount SAMPLE_FOLDERS repeat2_storage no_draws)) = Some 1"
proof -
  define s where "s = run [OpenFolder 100 True no_draws, ClickUnlock]
                   (mount SAMPLE_FOLDERS repeat2_storage no_draws)"
  note o = autoplay_sample_deck [OF repeat2_storage_simps(1,2,3), folded s_def,
      unfolded repeat2_storage_simps(4)]
  define r where "r = render_of s"
  define s3 where "s3 = playRecordedOrTTS r SAMPLE_CARD (s\<lparr>repeatRemainRef := repeatCount s\<rparr>)"
  have r: "r_isUnlocked r" "r_preferAudio r" "r_isPlaying r" "\<not> r_readDescription r"
    "length (r_cards r) = 2"
    using o by (simp_all add: r_def render_of_def)
  have e3: "step ClickReplay s = s3"
    unfolding s3_def r_def step_replay using o(3) by (simp add: replayClick_def)
  note a = audio_start [OF r(1,2), of SAMPLE_CARD "s\<lparr>repeatRemainRef := repeatCount s\<rparr>"]
  have a3: "audioCache s3 (audioUrlOf SAMPLE_CARD)
      = (Some (AudioUnitEnd SAMPLE_CARD r), Some (AudioUnitEnd SAMPLE_CARD r))"
    unfolding s3_def a by simp
  have f3: "repeatRemainRef s3 = 2" "index s3 = Some 0"
    unfolding s3_def using o by (simp_all add: playRecordedOrTTS_frame)
  have p3: "plays s3 = [Some (AudioUnitEnd SAMPLE_CARD r)]"
    unfolding s3_def a using o by simp
  have t3: "filter starts_playback (trace s3) = [PlayAudio (audioUrlOf SAMPLE_CARD)]"
    unfolding s3_def a using o by simp
  define s4 where "s4 = s3\<lparr>repeatRemainRef := repeatRemainRef s3 - 1,
      plays := plays s3 @ [Some (AudioUnitEnd SAMPLE_CARD r)],
      trace := trace s3 @ [PlayAudio (audioUrlOf SAMPLE_CARD)]\<rparr>"
  have "1 < repeatRemainRef s3"
    by (simp add: f3)
  with a3 have "step (AudioEnded (audioUrlOf SAMPLE_CARD)) s3 = s4"
    unfolding s4_def by (rule audio_repeat_step)
  then have e4: "step (AudioError (audioUrlOf SAMPLE_CARD)) s3 = s4"
    using a3 by (simp add: step_error_as_ended)
  have f4: "repeatRemainRef s4 = 1" "index s4 = Some 0" "0 < length (plays s4)"
    "plays s4 ! 0 = Some (AudioUnitEnd SAMPLE_CARD r)"
    unfolding s4_def using f3 p3 by simp_all
  have n4: "\<not> 1 < repeatRemainRef s4"
    by (simp add: f4)
  note d5 = rejected_done_handler [OF f4(3,4) n4 r(4,3)]
  have i5: "index (step (PlayRejected 0) s4) = Some 1"
    unfolding step_def commit_frame d5
    by (simp add: setIndexNext_def Let_def f4 r(5) js_add_def js_rem_def)
  have run3: "run [OpenFolder 100 True no_draws, ClickUnlock, ClickReplay]
               (mount SAMPLE_FOLDERS repeat2_storage no_draws) = s3"
    using e3 by (simp add: run_Cons run_Nil s_def)
  have run4: "run [OpenFolder 100 True no_draws, ClickUnlock, ClickReplay,
                  AudioError ''/audio/0001_ko-KR.mp3'']
               (mount SAMPLE_FOLDERS repeat2_storage no_draws) = s4"
    using e3 e4 by (simp add: run_Cons run_Nil s_def sample_url)
  have run5: "run [OpenFolder 100 True no_draws, ClickUnlock, ClickReplay,
                  AudioError ''/audio/0001_ko-KR.mp3'', PlayRejected 0]
               (mount SAMPLE_FOLDERS repeat2_storage no_draws) = step (PlayRejected 0) s4"
    using e3 e4 by (simp add: run_Cons run_Nil s_def sample_url)
  show ?thesis
    unfolding run3 run4 run5 using f3(1) t3 f4(1,2) i5 by (simp add: sample_url)
qed

section \<open>A report that arrives after the pause\<close>

lemma empty_storage_simps:
  "st_lastFolder empty_storage = None" "st_shuffle empty_storage = None"
  "st_readDesc empty_storage = None"
  "clampRepeat (loadNumber (st_repeat empty_storage) 1) = 1"
  by (simp_all add: empty_storage_def loadNumber_def clampRepeat_def)

lemma second_sample_card:
  "card_id SECOND_SAMPLE_CARD = SafeInt (Abs_safe_int 2)"
  "lang_of SECOND_SAMPLE_CARD = Some KoKR"
  "SECOND_SAMPLE_CARD \<noteq> SAMPLE_CARD"
  by (simp_all add: SECOND_SAMPLE_CARD_def SAMPLE_FOLDERS_def SAMPLE_CARD_def lang_of_def)

lemma second_sample_url:
  "audioUrlOf SECOND_SAMPLE_CARD = ''/audio/0002_ko-KR.mp3''"
proof -
  let ?c = "SECOND_SAMPLE_CARD"
  have "audioFileName ?c = ''0002_ko-KR.mp3''"
    by (simp add: audioFileName_eq second_sample_card js_String_def small_ids pad4
        zero_padded4_def digit_char_def)
  moreover have "encodeURIComponent (audioFileName ?c) = audioFileName ?c"
    by (rule encode_unreserved) (rule audioFileName_unreserved [OF second_sample_card(1)])
  ultimately show ?thesis
    by (simp add: audioUrlOf_def)
qed

text \<open>
  A rejected \<open>play()\<close> promise in a paused session: its \<open>catch\<close> was created by a render
  that was playing, so on the last unit of the term it advances, and the effects of the
  new position reset the counter.
\<close>

lemma step_rejected_advances:
  assumes "n < length (plays s)" and "plays s ! n = Some (AudioUnitEnd c r)"
    and "\<not> 1 < repeatRemainRef s" and "\<not> r_readDescription r" and "r_isPlaying r"
    and "\<not> isPlaying s"
    and "js_rem (js_add (index s) 1) (int (length (r_cards r))) \<noteq> index s"
  shows "step (PlayRejected n) s =
    s\<lparr>index := js_rem (js_add (index s) 1) (int (length (r_cards r))),
      repeatRemainRef := repeatCount s,
      plays := (plays s)[n := None],
      trace := trace s @ [SetIndex (js_rem (js_add (index s) 1) (int (length (r_cards r))))]\<rparr>"
proof -
  define new where "new = setIndexNext r (s\<lparr>plays := (plays s)[n := None]\<rparr>)"
  have d: "deliver (PlayRejected n) s = new"
    unfolding new_def using assms(1-5) by (rule rejected_done_handler)
  have f: "folders new = folders s" "selectedFolderId new = selectedFolderId s"
    "shuffle new = shuffle s" "index new \<noteq> index s" "\<not> isPlaying new"
    using assms(6,7) by (simp_all add: new_def setIndexNext_def Let_def)
  have sf: "selectedFolder new = selectedFolder s"
    using f(1,2) by (rule selectedFolder_cong)
  have "commit rnd s new = playEffect (resetEffect new)" for rnd
    unfolding commit_no_reorder [OF sf f(3)] Let_def using f(4) by simp
  moreover have "playEffect (resetEffect new) = resetEffect new"
    using f(5) by (simp add: playEffect_def resetEffect_def)
  moreover have "step (PlayRejected n) s = commit (random_of (PlayRejected n)) s new"
    unfolding step_def d ..
  ultimately have "step (PlayRejected n) s = resetEffect new"
    by simp
  then show ?thesis
    by (simp add: new_def resetEffect_def setIndexNext_def Let_def)
qed

text \<open>
  Claim C7 at a failing input. The sample deck is opened with autoplay, audio is unlocked
  and the first card is replayed: the one unit of its term (the configured count is 1) is
  under way, its \<open>play()\<close> promise still pending while the file loads. The user pauses.
  The pause branch calls \<open>a.pause()\<close>, for which the platform rejects the pending
  promise; it clears \<open>onended\<close> and \<open>onerror\<close> but cannot clear the \<open>catch\<close> of that
  promise, which runs \<open>onEnd\<close> with the \<open>isPlaying = true\<close> of the render that started
  the unit. The counter being at 1, \<open>onEnd\<close> advances: the position moves to the second
  card while the session is paused. The resume press then resets the counter to the
  configured count, but for the second card, and it is the second card that is played:
  the cycle of the first card is not restarted.
\<close>

theorem pause_report_changes_card:
  "isPlaying (run [OpenFolder 100 True no_draws, ClickUnlock, ClickReplay]
               (mount SAMPLE_FOLDERS empty_storage no_draws))
   \<and> currentCard (run [OpenFolder 100 True no_draws, ClickUnlock, ClickReplay]
               (mount SAMPLE_FOLDERS empty_storage no_draws)) = Some SAMPLE_CARD
   \<and> filter starts_playback (trace (run [OpenFolder 100 True no_draws, ClickUnlock, ClickReplay]
               (mount SAMPLE_FOLDERS empty_storage no_draws)))
       = [PlayAudio ''/audio/0001_ko-KR.mp3'']
   \<and> \<not> isPlaying (run [OpenFolder 100 True no_draws, ClickUnlock, ClickReplay, ClickPlayPause]
               (mount SAMPLE_FOLDERS empty_storage no_draws))
   \<and> currentCard (run [OpenFolder 100 True no_draws, ClickUnlock, ClickReplay, ClickPlayPause]
               (mount SAMPLE_FOLDERS empty_storage no_draws)) = Some SAMPLE_CARD
   \<and> \<not> isPlaying (run [OpenFolder 100 True no_draws, ClickUnlock, ClickReplay, ClickPlayPause,
                  PlayRejected 0]
               (mount SAMPLE_FOLDERS empty_storage no_draws))
   \<and> index (run [OpenFolder 100 True no_draws, ClickUnlock, ClickReplay, ClickPlayPause,
                  PlayRejected 0]
               (mount SAMPLE_FOLDERS empty_storage no_draws)) = Some 1
   \<and> isPlaying (run [OpenFolder 100 True no_draws, ClickUnlock, ClickReplay, ClickPlayPause,
                  PlayRejected 0, ClickPlayPause]
               (mount SAMPLE_FOLDERS empty_storage no_draws))
   \<and> repeatRemainRef (run [OpenFolder 100 True no_draws, ClickUnlock, ClickReplay, ClickPlayPause,
                  PlayRejected 0, ClickPlayPause]
               (mount SAMPLE_FOLDERS empty_storage no_draws)) = 1
   \<and> currentCard (run [OpenFolder 100 True no_draws, ClickUnlock, ClickReplay, ClickPlayPause,
                  PlayRejected 0, ClickPlayPause]
               (mount SAMPLE_FOLDERS empty_storage no_draws))
       = Some SECOND_SAMPLE_CARD
   \<and> SECOND_SAMPLE_CARD \<noteq> SAMPLE_CARD
   \<and> filter starts_playback (trace (run [OpenFolder 100 True no_draws, ClickUnlock, ClickReplay,
                  ClickPlayPause, PlayRejected 0, ClickPlayPause]
               (mount SAMPLE_FOLDERS empty_storage no_draws)))
       = [PlayAudio ''/audio/0001_ko-KR.mp3'', PlayAudio ''/audio/0002_ko-KR.mp3'',
          PlayAudio ''/audio/0002_ko-KR.mp3'']"
proof -
  let ?c2 = "SECOND_SAMPLE_CARD"
  define s where "s = run [OpenFolder 100 True no_draws, ClickUnlock]
                   (mount SAMPLE_FOLDERS empty_storage no_draws)"
  note o = autoplay_sample_deck [OF empty_storage_simps(1,2,3), folded s_def,
      unfolded empty_storage_simps(4)]
  define r where "r = render_of s"
  define s3 where "s3 = playRecordedOrTTS r SAMPLE_CARD (s\<lparr>repeatRemainRef := repeatCount s\<rparr>)"
  have r: "r_isUnlocked r" "r_preferAudio r" "r_isPlaying r" "\<not> r_readDescription r"
    "length (r_cards r) = 2"
    using o by (simp_all add: r_def render_of_def)
  have e3: "step ClickReplay s = s3"
    unfolding s3_def r_def step_replay using o(3) by (simp add: replayClick_def)
  note a = audio_start [OF r(1,2), of SAMPLE_CARD "s\<lparr>repeatRemainRef := repeatCount s\<rparr>"]
  have f3: "repeatRemainRef s3 = 1" "index s3 = Some 0" "isPlaying s3" "isUnlocked s3"
    "folders s3 = folders s" "selectedFolderId s3 = selectedFolderId s"
    "orderRef s3 = [0, 1]" "repeatCount s3 = 1" "preferAudio s3"
    unfolding s3_def using o by (simp_all add: playRecordedOrTTS_frame)
  have p3: "plays s3 = [Some (AudioUnitEnd SAMPLE_CARD r)]"
    unfolding s3_def a using o by simp
  have t3: "filter starts_playback (trace s3) = [PlayAudio (audioUrlOf SAMPLE_CARD)]"
    unfolding s3_def a using o by simp
  have k3: "cards s3 = folder_cards (hd SAMPLE_FOLDERS)"
    using cards_cong [OF f3(5,6)] o(11) by simp
  have c3: "currentCard s3 = Some SAMPLE_CARD"
    using currentCard_cong [of s3 s] f3 o by simp
  define s4 where "s4 = pauseBranch s3"
  have e4: "step ClickPlayPause s3 = s4"
    unfolding s4_def using f3(3) by (rule step_pause)
  have f4: "repeatRemainRef s4 = 1" "index s4 = Some 0" "\<not> isPlaying s4" "isUnlocked s4"
    "folders s4 = folders s" "selectedFolderId s4 = selectedFolderId s"
    "orderRef s4 = [0, 1]" "repeatCount s4 = 1" "preferAudio s4"
    unfolding s4_def using f3 by (simp_all add: pauseBranch_frame)
  have p4: "0 < length (plays s4)" "plays s4 ! 0 = Some (AudioUnitEnd SAMPLE_CARD r)"
    unfolding s4_def using p3 by (simp_all add: pauseBranch_def)
  have t4: "filter starts_playback (trace s4) = [PlayAudio (audioUrlOf SAMPLE_CARD)]"
    unfolding s4_def using t3 by (simp add: pauseBranch_def)
  have c4: "currentCard s4 = Some SAMPLE_CARD"
    using currentCard_cong [of s4 s3] f4 f3 c3 by simp
  have n4: "\<not> 1 < repeatRemainRef s4"
    by (simp add: f4)
  have v4: "js_rem (js_add (index s4) 1) (int (length (r_cards r))) = Some 1"
    by (simp add: f4 r(5) js_add_def js_rem_def)
  define s5 where "s5 = s4\<lparr>index := Some 1, repeatRemainRef := repeatCount s4,
      plays := (plays s4)[0 := None], trace := trace s4 @ [SetIndex (Some 1)]\<rparr>"
  have "js_rem (js_add (index s4) 1) (int (length (r_cards r))) \<noteq> index s4"
    unfolding v4 by (simp add: f4)
  from step_rejected_advances [OF p4 n4 r(4,3) f4(3) this]
  have e5: "step (PlayRejected 0) s4 = s5"
    unfolding v4 s5_def .
  have f5: "repeatRemainRef s5 = 1" "index s5 = Some 1" "\<not> isPlaying s5" "isUnlocked s5"
    "folders s5 = folders s" "selectedFolderId s5 = selectedFolderId s"
    "orderRef s5 = [0, 1]" "repeatCount s5 = 1" "preferAudio s5"
    unfolding s5_def using f4 by simp_all
  have t5: "filter starts_playback (trace s5) = [PlayAudio (audioUrlOf SAMPLE_CARD)]"
    unfolding s5_def using t4 by simp
  have k5: "cards s5 = folder_cards (hd SAMPLE_FOLDERS)"
    using cards_cong [OF f5(5,6)] o(11) by simp
  have l5: "length (folder_cards (hd SAMPLE_FOLDERS)) = 2" "folder_cards (hd SAMPLE_FOLDERS) \<noteq> []"
    by (simp_all add: SAMPLE_FOLDERS_def)
  have c5: "currentCard s5 = Some ?c2"
    unfolding currentCard_def Let_def k5 f5(2,7) l5
    by (simp add: js_rem_def logicalIndexToReal_def card_at_def l5 SECOND_SAMPLE_CARD_def)
  define s6 where "s6 = step ClickPlayPause s5"
  note e6 = step_resume_card [OF f5(3) c5, folded s6_def]
  have f6: "isPlaying s6" "repeatRemainRef s6 = 1" "index s6 = Some 1"
    "folders s6 = folders s5" "selectedFolderId s6 = selectedFolderId s5"
    "orderRef s6 = orderRef s5"
    unfolding e6 using f5 by (simp_all add: playRecordedOrTTS_frame)
  have c6: "currentCard s6 = Some ?c2"
    using currentCard_cong [OF f6(4,5) _ f6(6)] f6(3) f5(2) c5 by simp
  have "trace s6 = trace s5
      @ [CancelSpeech, term_unit (render_of s5) ?c2,
         CancelSpeech, term_unit ((render_of s5)\<lparr>r_isPlaying := True\<rparr>) ?c2]"
    unfolding s6_def using f5(3) c5 f5(4) by (rule trace_step_resume)
  then have t6: "filter starts_playback (trace s6)
      = [PlayAudio (audioUrlOf SAMPLE_CARD), PlayAudio (audioUrlOf ?c2), PlayAudio (audioUrlOf ?c2)]"
    using t5 f5(9) by (simp add: term_unit_def render_of_def)
  have run3: "run [OpenFolder 100 True no_draws, ClickUnlock, ClickReplay]
               (mount SAMPLE_FOLDERS empty_storage no_draws) = s3"
    using e3 by (simp add: run_Cons run_Nil s_def)
  have run4: "run [OpenFolder 100 True no_draws, ClickUnlock, ClickReplay, ClickPlayPause]
               (mount SAMPLE_FOLDERS empty_storage no_draws) = s4"
    using e3 e4 by (simp add: run_Cons run_Nil s_def)
  have run5: "run [OpenFolder 100 True no_draws, ClickUnlock, ClickReplay, ClickPlayPause,
                  PlayRejected 0]
               (mount SAMPLE_FOLDERS empty_storage no_draws) = s5"
    using e3 e4 e5 by (simp add: run_Cons run_Nil s_def)
  have run6: "run [OpenFolder 100 True no_draws, ClickUnlock, ClickReplay, ClickPlayPause,
                  PlayRejected 0, ClickPlayPause]
               (mount SAMPLE_FOLDERS empty_storage no_draws) = s6"
    using e3 e4 e5 by (simp add: run_Cons run_Nil s_def s6_def)
  show ?thesis
    unfolding run3 run4 run5 run6
    using f3(3) c3 t3 f4(3) c4 f5(3,2) f6(1,2) c6 second_sample_card(3) t6
    by (simp add: sample_url second_sample_url)
qed

section \<open>The unlock gate\<close>

lemma commit_shape:
  "\<exists>b1 b2 b3. commit rnd old new =
     (if b3 then playEffect else id)
       ((if b2 then resetEffect else id) ((if b1 then orderEffect rnd else id) new))"
proof -
  let ?b1 = "selectedFolder new \<noteq> selectedFolder old \<or> shuffle new \<noteq> shuffle old"
  let ?b2 = "index new \<noteq> index old \<or> selectedFolderId new \<noteq> selectedFolderId old
                   \<or> repeatCount new \<noteq> repeatCount old"
  let ?b3 = "index new \<noteq> index old \<or> selectedFolder new \<noteq> selectedFolder old
                   \<or> ttsRate new \<noteq> ttsRate old \<or> preferAudio new \<noteq> preferAudio old
                   \<or> isPlaying new \<noteq> isPlaying old"
  have "commit rnd old new =
     (if ?b3 then playEffect else id)
       ((if ?b2 then resetEffect else id) ((if ?b1 then orderEffect rnd else id) new))"
    unfolding commit_def Let_def by (simp split del: if_split add: if_distrib [of "\<lambda>f. f _"] cong: if_cong)
  then show ?thesis by blast
qed

lemma commit_preserves:
  assumes "P new" and "\<And>s. P s \<Longrightarrow> P (orderEffect rnd s)" and "\<And>s. P s \<Longrightarrow> P (resetEffect s)"
    and "\<And>s. P s \<Longrightarrow> P (playEffect s)"
  shows "P (commit rnd old new)"
proof -
  obtain b1 b2 b3 where c: "commit rnd old new =
     (if b3 then playEffect else id)
       ((if b2 then resetEffect else id) ((if b1 then orderEffect rnd else id) new))"
    using commit_shape by blast
  have 1: "P ((if b1 then orderEffect rnd else id) new)"
    using assms(1,2) by simp
  then have 2: "P ((if b2 then resetEffect else id) ((if b1 then orderEffect rnd else id) new))"
    using assms(3) by simp
  then show ?thesis
    unfolding c using assms(4) by simp
qed


lemma playRecordedOrTTS_locked: "\<not> r_isUnlocked r \<Longrightarrow> playRecordedOrTTS r c s = s"
  by (simp add: playRecordedOrTTS_def)

lemma playEffect_locked: "\<not> isUnlocked s \<Longrightarrow> playEffect s = s"
  by (simp add: playEffect_def playRecordedOrTTS_locked render_of_def split: option.splits)

lemma run_slot_None: "run_slot None s = s"
  by (simp add: run_slot_def)

lemma deliver_locked:
  assumes "\<not> isUnlocked s" and "nothing_started s" and "e \<noteq> ClickUnlock"
  shows "\<not> isUnlocked (deliver e s) \<and> nothing_started (deliver e s)"
proof -
  have q: "filter starts_playback (trace s) = []" "audioCache s = (\<lambda>url. (None, None))"
    "plays s = []" "utts s = []"
    using assms(2) by (simp_all add: nothing_started_def)
  have l: "\<not> r_isUnlocked (render_of s)"
    using assms(1) by (simp add: render_of_def)
  show ?thesis
  proof (cases e)
    case (AudioEnded url)
    then show ?thesis using assms(1,2) by (simp add: q run_slot_None)
  next
    case (AudioError url)
    then show ?thesis using assms(1,2) by (simp add: q run_slot_None)
  next
    case (PlayRejected n)
    then show ?thesis using assms(1,2) by (simp add: q)
  next
    case (UtterEnd n)
    then show ?thesis using assms(1,2) by (simp add: q)
  next
    case (UtterError n)
    then show ?thesis using assms(1,2) by (simp add: q)
  next
    case ClickNext
    then show ?thesis using assms(1) q by (simp add: next_card_def nothing_started_def Let_def)
  next
    case ClickPrev
    then show ?thesis using assms(1) q by (simp add: prev_card_def nothing_started_def Let_def)
  next
    case ClickPlayPause
    have "resumeBranch s = s\<lparr>isPlaying := True, repeatRemainRef := repeatCount s\<rparr>"
      using l by (simp add: resumeBranch_def Let_def playRecordedOrTTS_locked split: option.splits)
    then show ?thesis
      using ClickPlayPause assms(1) q
      by (simp add: playPauseClick_def pauseBranch_def nothing_started_def)
  next
    case ClickReplay
    have "replayClick s = s \<or> replayClick s = s\<lparr>repeatRemainRef := repeatCount s\<rparr>"
      using l by (simp add: replayClick_def playRecordedOrTTS_locked split: option.splits)
    then show ?thesis
      using ClickReplay assms(1) q by (auto simp add: nothing_started_def)
  next
    case ClickUnlock
    then show ?thesis using assms(3) by simp
  next
    case (SetRepeatCount v)
    then show ?thesis using assms(1) q by (simp add: nothing_started_def)
  next
    case (SetShuffle b rnd)
    then show ?thesis using assms(1) q by (simp add: nothing_started_def)
  next
    case (SetPreferAudio b)
    then show ?thesis using assms(1) q by (simp add: nothing_started_def)
  next
    case (SetReadDescription b)
    then show ?thesis using assms(1) q by (simp add: nothing_started_def)
  next
    case (SetTtsRate v)
    then show ?thesis using assms(1) q by (simp add: nothing_started_def)
  next
    case (OpenFolder fid autoplay rnd)
    then show ?thesis using assms(1) q by (simp add: openFolder_def nothing_started_def)
  next
    case BackToLibrary
    then show ?thesis using assms(1) q by (simp add: backToLibrary_def nothing_started_def)
  qed
qed

lemma step_locked:
  assumes "\<not> isUnlocked s \<and> nothing_started s" and "e \<noteq> ClickUnlock"
  shows "\<not> isUnlocked (step e s) \<and> nothing_started (step e s)"
  unfolding step_def
proof (rule commit_preserves)
  show "\<not> isUnlocked (deliver e s) \<and> nothing_started (deliver e s)"
    using assms by (simp add: deliver_locked)
next
  fix t assume "\<not> isUnlocked t \<and> nothing_started t"
  then show "\<not> isUnlocked (orderEffect (random_of e) t) \<and> nothing_started (orderEffect (random_of e) t)"
    by (simp add: orderEffect_def nothing_started_def)
next
  fix t assume "\<not> isUnlocked t \<and> nothing_started t"
  then show "\<not> isUnlocked (resetEffect t) \<and> nothing_started (resetEffect t)"
    by (simp add: resetEffect_def nothing_started_def)
next
  fix t assume "\<not> isUnlocked t \<and> nothing_started t"
  then show "\<not> isUnlocked (playEffect t) \<and> nothing_started (playEffect t)"
    by (simp add: playEffect_locked)
qed

lemma run_locked:
  assumes "\<not> isUnlocked s \<and> nothing_started s" and "ClickUnlock \<notin> set es"
  shows "\<not> isUnlocked (run es s) \<and> nothing_started (run es s)"
  using assms
proof (induction es arbitrary: s)
  case Nil
  then show ?case by (simp add: run_Nil)
next
  case (Cons e es)
  then have "\<not> isUnlocked (step e s) \<and> nothing_started (step e s)"
    by (intro step_locked) auto
  then show ?case
    unfolding run_Cons using Cons.prems(2) by (intro Cons.IH) auto
qed

lemma mount_locked: "\<not> isUnlocked (mount fs st rnd) \<and> nothing_started (mount fs st rnd)"
  by (simp add: nothing_started_def mount_frame mount_more mount_trace)

lemma setIndexNext_frame:
  "isUnlocked (setIndexNext r s) = isUnlocked s"
  "repeatCount (setIndexNext r s) = repeatCount s"
  "repeatRemainRef (setIndexNext r s) = repeatRemainRef s"
  by (simp_all add: setIndexNext_def Let_def)

lemma termDone_frame:
  "isUnlocked (termDone r c s) = isUnlocked s"
  "repeatCount (termDone r c s) = repeatCount s"
  "repeatRemainRef (termDone r c s) = repeatRemainRef s"
  by (simp_all add: termDone_def speakDescriptionThenNext_def Let_def setIndexNext_frame)

lemma unit_frame:
  "isUnlocked (playAudioWithRepeat r c s) = isUnlocked s"
  "repeatCount (playAudioWithRepeat r c s) = repeatCount s"
  "repeatRemainRef (playAudioWithRepeat r c s) = repeatRemainRef s"
  "isUnlocked (speakWithRepeat r c s) = isUnlocked s"
  "repeatCount (speakWithRepeat r c s) = repeatCount s"
  "repeatRemainRef (speakWithRepeat r c s) = repeatRemainRef s"
  by (simp_all add: playAudioWithRepeat_def playAudioOnce_def speakWithRepeat_def speakOnce_def
      Let_def)

lemma fire_frame:
  "isUnlocked (fire k s) = isUnlocked s"
  "repeatCount (fire k s) = repeatCount s"
  by (cases k; simp add: advanceOrRepeat_def unit_frame termDone_frame setIndexNext_frame)+

lemma run_slot_frame:
  "isUnlocked (run_slot k s) = isUnlocked s"
  "repeatCount (run_slot k s) = repeatCount s"
  by (simp_all add: run_slot_def fire_frame split: option.splits)

lemma step_keeps_unlocked: "isUnlocked s \<Longrightarrow> isUnlocked (step e s)"
proof -
  assume u: "isUnlocked s"
  have "isUnlocked (deliver e s)"
    using u
    by (cases e)
      (simp_all add: run_slot_frame next_card_def prev_card_def Let_def playPauseClick_def
        pauseBranch_frame resumeBranch_frame replayClick_def playRecordedOrTTS_frame
        unlockAudio_def openFolder_def backToLibrary_def split: option.splits)
  then show ?thesis
    by (simp add: step_def commit_frame)
qed

lemma run_keeps_unlocked: "isUnlocked s \<Longrightarrow> isUnlocked (run es s)"
proof (induction es arbitrary: s)
  case Nil
  then show ?case by (simp add: run_Nil)
next
  case (Cons e es)
  then show ?case
    unfolding run_Cons by (intro Cons.IH step_keeps_unlocked)
qed

text \<open>
  Claim C5. From mounting on, as long as the unlock button has not been pressed, whatever
  else happens (button presses, setting changes, platform events), the session stays
  locked, no audio element has been played and no utterance spoken, and no callback is
  bound; a call of \<open>playRecordedOrTTS\<close> from a locked render returns the session
  unchanged. Once unlock has been pressed the session stays unlocked through every later
  event, every later render is unlocked, and a call of \<open>playRecordedOrTTS\<close> from an
  unlocked render does start a unit of the term.
\<close>

theorem unlock_gate:
  "(ClickUnlock \<notin> set es \<longrightarrow>
      \<not> isUnlocked (run es (mount fs st rnd))
      \<and> filter starts_playback (trace (run es (mount fs st rnd))) = []
      \<and> nothing_started (run es (mount fs st rnd)))
   \<and> (\<not> r_isUnlocked r \<longrightarrow> playRecordedOrTTS r c s = s)
   \<and> isUnlocked (run es' (step ClickUnlock s))
   \<and> r_isUnlocked (render_of (run es' (step ClickUnlock s)))
   \<and> (r_isUnlocked r' \<longrightarrow>
        trace (playRecordedOrTTS r' c s) = trace s @ [CancelSpeech, term_unit r' c])"
proof -
  have 1: "ClickUnlock \<notin> set es \<longrightarrow>
      \<not> isUnlocked (run es (mount fs st rnd))
      \<and> filter starts_playback (trace (run es (mount fs st rnd))) = []
      \<and> nothing_started (run es (mount fs st rnd))"
    using run_locked [OF mount_locked, of es fs st rnd] by (simp add: nothing_started_def)
  have 2: "\<not> r_isUnlocked r \<longrightarrow> playRecordedOrTTS r c s = s"
    by (simp add: playRecordedOrTTS_locked)
  have "isUnlocked (step ClickUnlock s)"
    by (simp add: step_unlock)
  then have 3: "isUnlocked (run es' (step ClickUnlock s))"
    by (rule run_keeps_unlocked)
  then have 4: "r_isUnlocked (render_of (run es' (step ClickUnlock s)))"
    by (simp add: render_of_def)
  have 5: "r_isUnlocked r' \<longrightarrow>
        trace (playRecordedOrTTS r' c s) = trace s @ [CancelSpeech, term_unit r' c]"
    by (simp add: trace_playRecordedOrTTS)
  from 1 2 3 4 5 show ?thesis by blast
qed

theorem unlock_gate_witness:
  "ClickUnlock \<notin> set [OpenFolder 100 True no_draws, ClickPlayPause, ClickPlayPause, ClickReplay,
                        ClickNext]
   \<and> filter starts_playback
        (trace (run [OpenFolder 100 True no_draws, ClickPlayPause, ClickPlayPause, ClickReplay,
                     ClickNext]
                  (mount SAMPLE_FOLDERS empty_storage no_draws))) = []
   \<and> \<not> r_isUnlocked (render_of (mount SAMPLE_FOLDERS empty_storage no_draws))
   \<and> playRecordedOrTTS (render_of (mount SAMPLE_FOLDERS empty_storage no_draws)) SAMPLE_CARD
        (mount SAMPLE_FOLDERS empty_storage no_draws)
       = mount SAMPLE_FOLDERS empty_storage no_draws
   \<and> r_isUnlocked (playing_render True False)
   \<and> trace (playRecordedOrTTS (playing_render True False) SAMPLE_CARD
               (mount SAMPLE_FOLDERS empty_storage no_draws))
       = [CancelSpeech, PlayAudio ''/audio/0001_ko-KR.mp3'']"
proof -
  let ?es = "[OpenFolder 100 True no_draws, ClickPlayPause, ClickPlayPause, ClickReplay, ClickNext]"
  let ?s = "mount SAMPLE_FOLDERS empty_storage no_draws"
  have h1: "ClickUnlock \<notin> set ?es"
    by simp
  have h2: "\<not> r_isUnlocked (render_of ?s)"
    by (simp add: render_of_def mount_frame)
  have h3: "r_isUnlocked (playing_render True False)"
    by (simp add: playing_render_def)
  have u: "term_unit (playing_render True False) SAMPLE_CARD = PlayAudio ''/audio/0001_ko-KR.mp3''"
    by (simp add: term_unit_def playing_render_def sample_url)
  from unlock_gate [of ?es SAMPLE_FOLDERS empty_storage no_draws "render_of ?s" SAMPLE_CARD ?s
      "[]" "playing_render True False"] h1 h2 h3
  have "filter starts_playback (trace (run ?es ?s)) = []"
    and "playRecordedOrTTS (render_of ?s) SAMPLE_CARD ?s = ?s"
    and "trace (playRecordedOrTTS (playing_render True False) SAMPLE_CARD ?s)
       = trace ?s @ [CancelSpeech, term_unit (playing_render True False) SAMPLE_CARD]"
    by blast+
  then show ?thesis
    using h1 h2 h3 by (simp add: u mount_trace)
qed

section \<open>Bounds of the repeat counter\<close>

lemma counter_inv_cong:
  "repeatRemainRef t = repeatRemainRef s \<Longrightarrow> repeatCount t = repeatCount s
   \<Longrightarrow> counter_inv t = counter_inv s"
  by (simp add: counter_inv_def)

lemma int_above_one:
  assumes "(x::rat) \<in> \<int>" and "1 < x"
  shows "x - 1 \<in> \<int>" and "1 \<le> x - 1"
proof -
  from assms(1) obtain z where z: "x = of_int z"
    by (auto elim: Ints_cases)
  with assms(2) have "1 < z"
    by simp
  then have "2 \<le> z"
    by simp
  then have "(2::rat) \<le> of_int z"
    by (metis of_int_le_iff of_int_numeral)
  then show "1 \<le> x - 1"
    using z by simp
  show "x - 1 \<in> \<int>"
    using assms(1) by simp
qed

lemma counter_decrement:
  assumes "counter_inv s" and "1 < repeatRemainRef s"
  shows "counter_inv (s\<lparr>repeatRemainRef := repeatRemainRef s - 1\<rparr>)"
  using assms int_above_one [of "repeatRemainRef s"] by (auto simp add: counter_inv_def)

lemma counter_reset:
  assumes "1 \<le> repeatCount s" and "repeatCount s \<le> 5"
  shows "counter_inv (s\<lparr>repeatRemainRef := repeatCount s\<rparr>)"
  using assms by (simp add: counter_inv_def)

lemma counter_bounds: "counter_inv s \<Longrightarrow> 1 \<le> repeatCount s \<and> repeatCount s \<le> 5"
  by (simp add: counter_inv_def)

lemma fire_counter:
  assumes "counter_inv s"
  shows "counter_inv (fire k s)"
proof -
  have d: "1 < repeatRemainRef s \<Longrightarrow> counter_inv (s\<lparr>repeatRemainRef := repeatRemainRef s - 1\<rparr>)"
    using assms by (rule counter_decrement)
  have t: "\<And>r c. counter_inv (termDone r c s)"
    using assms counter_inv_cong [of "termDone _ _ s" s] by (simp add: termDone_frame)
  have a: "\<And>r c t. counter_inv t \<Longrightarrow> counter_inv (playAudioWithRepeat r c t)"
    using counter_inv_cong [of "playAudioWithRepeat _ _ _"] by (simp add: unit_frame)
  have b: "\<And>r c t. counter_inv t \<Longrightarrow> counter_inv (speakWithRepeat r c t)"
    using counter_inv_cong [of "speakWithRepeat _ _ _"] by (simp add: unit_frame)
  have n: "\<And>r. counter_inv (setIndexNext r s)"
    using assms counter_inv_cong [of "setIndexNext _ s" s] by (simp add: setIndexNext_frame)
  show ?thesis
  proof (cases k)
    case (AudioUnitEnd c r)
    then show ?thesis
      using d t a assms by (simp add: advanceOrRepeat_def)
  next
    case (SpeechUnitEnd c r)
    then show ?thesis
      using d t b assms by (simp add: advanceOrRepeat_def)
  next
    case (DescriptionEnd r)
    then show ?thesis
      using n assms by simp
  qed
qed

lemma run_slot_counter: "counter_inv s \<Longrightarrow> counter_inv (run_slot k s)"
  by (simp add: run_slot_def fire_counter split: option.splits)

lemma deliver_counter:
  assumes "counter_inv s" and "\<forall>v. e \<noteq> SetRepeatCount v"
  shows "counter_inv (deliver e s)"
proof -
  note b = counter_bounds [OF assms(1)]
  have same: "counter_inv t"
    if "repeatRemainRef t = repeatRemainRef s" "repeatCount t = repeatCount s" for t
    using counter_inv_cong [OF that] assms(1) by (simp only:)
  have fresh: "counter_inv t"
    if "repeatRemainRef t = repeatCount s" "repeatCount t = repeatCount s" for t
  proof -
    have "counter_inv (s\<lparr>repeatRemainRef := repeatCount s\<rparr>)"
      using b by (intro counter_reset) simp_all
    moreover have "counter_inv t = counter_inv (s\<lparr>repeatRemainRef := repeatCount s\<rparr>)"
      by (rule counter_inv_cong) (simp_all add: that)
    ultimately show ?thesis
      by (simp only:)
  qed
  show ?thesis
  proof (cases e)
    case (AudioEnded url)
    then show ?thesis using assms(1) by (simp add: run_slot_counter)
  next
    case (AudioError url)
    then show ?thesis using assms(1) by (simp add: run_slot_counter)
  next
    case (PlayRejected n)
    have "counter_inv (s\<lparr>plays := (plays s)[n := None]\<rparr>)"
      by (rule same) simp_all
    then show ?thesis using PlayRejected assms(1) by (simp add: run_slot_counter)
  next
    case (UtterEnd n)
    then show ?thesis using assms(1) by (simp add: run_slot_counter)
  next
    case (UtterError n)
    then show ?thesis using assms(1) by (simp add: run_slot_counter)
  next
    case ClickNext
    show ?thesis
      unfolding ClickNext deliver.simps by (rule same) (simp_all add: next_card_def Let_def)
  next
    case ClickPrev
    show ?thesis
      unfolding ClickPrev deliver.simps by (rule same) (simp_all add: prev_card_def Let_def)
  next
    case ClickPlayPause
    show ?thesis
    proof (cases "isPlaying s")
      case True
      then have "deliver e s = pauseBranch s"
        by (simp add: ClickPlayPause playPauseClick_def)
      then show ?thesis
        by (simp only:) (rule same, simp_all add: pauseBranch_frame)
    next
      case False
      then have "deliver e s = resumeBranch s"
        by (simp add: ClickPlayPause playPauseClick_def)
      then show ?thesis
        by (simp only:) (rule fresh, simp_all add: resumeBranch_frame)
    qed
  next
    case ClickReplay
    show ?thesis
    proof (cases "currentCard s")
      case None
      then show ?thesis
        using assms(1) by (simp add: ClickReplay replayClick_def)
    next
      case (Some c)
      then have "deliver e s
          = playRecordedOrTTS (render_of s) c (s\<lparr>repeatRemainRef := repeatCount s\<rparr>)"
        by (simp add: ClickReplay replayClick_def)
      then show ?thesis
        by (simp only:) (rule fresh, simp_all add: playRecordedOrTTS_frame)
    qed
  next
    case ClickUnlock
    show ?thesis
      unfolding ClickUnlock deliver.simps by (rule same) (simp_all add: unlockAudio_def)
  next
    case (SetRepeatCount v)
    then show ?thesis using assms(2) by simp
  next
    case (SetShuffle b rnd)
    show ?thesis
      unfolding SetShuffle deliver.simps by (rule same) simp_all
  next
    case (SetPreferAudio b)
    show ?thesis
      unfolding SetPreferAudio deliver.simps by (rule same) simp_all
  next
    case (SetReadDescription b)
    show ?thesis
      unfolding SetReadDescription deliver.simps by (rule same) simp_all
  next
    case (SetTtsRate v)
    show ?thesis
      unfolding SetTtsRate deliver.simps by (rule same) simp_all
  next
    case (OpenFolder fid autoplay rnd)
    show ?thesis
      unfolding OpenFolder deliver.simps by (rule same) (simp_all add: openFolder_def)
  next
    case BackToLibrary
    show ?thesis
      unfolding BackToLibrary deliver.simps by (rule same) (simp_all add: backToLibrary_def)
  qed
qed

lemma effects_counter:
  assumes "counter_inv s"
  shows "counter_inv (orderEffect rnd s)" and "counter_inv (resetEffect s)"
    and "counter_inv (playEffect s)"
proof -
  have "counter_inv (orderEffect rnd s) = counter_inv s"
    by (rule counter_inv_cong) (simp_all add: orderEffect_def)
  then show "counter_inv (orderEffect rnd s)"
    using assms by (simp only:)
  show "counter_inv (resetEffect s)"
    unfolding resetEffect_def using counter_bounds [OF assms] by (intro counter_reset) simp_all
  have "counter_inv (playEffect s) = counter_inv s"
    by (rule counter_inv_cong) (simp_all add: playEffect_frame)
  then show "counter_inv (playEffect s)"
    using assms by (simp only:)
qed

lemma clampRepeat_bounds: "1 \<le> clampRepeat v \<and> clampRepeat v \<le> 5"
  by (simp add: clampRepeat_def)

lemma step_setRepeatCount:
  "step (SetRepeatCount v) s =
     (if clampRepeat v \<noteq> repeatCount s
      then s\<lparr>repeatCount := clampRepeat v, repeatRemainRef := clampRepeat v\<rparr> else s)"
proof -
  let ?t = "s\<lparr>repeatCount := clampRepeat v\<rparr>"
  have f: "selectedFolder ?t = selectedFolder s"
    by (rule selectedFolder_cong) simp_all
  have g: "shuffle ?t = shuffle s"
    by simp
  have "commit (\<lambda>k. 0) s ?t = (if clampRepeat v \<noteq> repeatCount s then resetEffect ?t else ?t)"
    unfolding commit_no_reorder [OF f g] Let_def by simp
  moreover have "clampRepeat v = repeatCount s \<Longrightarrow> ?t = s"
    by simp
  ultimately show ?thesis
    by (simp add: step_def resetEffect_def)
qed

lemma step_counter:
  assumes "counter_inv s"
  shows "counter_inv (step e s)"
proof (cases "\<exists>v. e = SetRepeatCount v")
  case True
  then obtain v where e: "e = SetRepeatCount v" by blast
  have "counter_inv (s\<lparr>repeatCount := clampRepeat v, repeatRemainRef := clampRepeat v\<rparr>)"
    using clampRepeat_bounds [of v] by (simp add: counter_inv_def)
  then show ?thesis
    unfolding e step_setRepeatCount using assms by simp
next
  case False
  then have "counter_inv (deliver e s)"
    using assms by (intro deliver_counter) auto
  then show ?thesis
    unfolding step_def by (rule commit_preserves) (simp_all add: effects_counter)
qed

lemma run_counter: "counter_inv s \<Longrightarrow> counter_inv (run es s)"
proof (induction es arbitrary: s)
  case Nil
  then show ?case by (simp add: run_Nil)
next
  case (Cons e es)
  then show ?case
    unfolding run_Cons by (intro Cons.IH step_counter)
qed

lemma mount_counter: "counter_inv (mount fs st rnd)"
  using clampRepeat_bounds [of "loadNumber (st_repeat st) 1"]
  by (simp add: counter_inv_def mount_frame)

lemma commit_resets:
  assumes "index new \<noteq> index old \<or> selectedFolderId new \<noteq> selectedFolderId old
    \<or> repeatCount new \<noteq> repeatCount old"
  shows "repeatRemainRef (commit rnd old new) = repeatCount new"
proof -
  define b1 where "b1 \<longleftrightarrow> selectedFolder new \<noteq> selectedFolder old \<or> shuffle new \<noteq> shuffle old"
  define b3 where "b3 \<longleftrightarrow> index new \<noteq> index old \<or> selectedFolder new \<noteq> selectedFolder old
                   \<or> ttsRate new \<noteq> ttsRate old \<or> preferAudio new \<noteq> preferAudio old
                   \<or> isPlaying new \<noteq> isPlaying old"
  define s1 where "s1 = (if b1 then orderEffect rnd new else new)"
  have c: "commit rnd old new = (if b3 then playEffect (resetEffect s1) else resetEffect s1)"
    unfolding commit_def Let_def b1_def b3_def s1_def by (simp only: assms if_True)
  have "repeatCount s1 = repeatCount new"
    unfolding s1_def by (cases b1) (simp_all add: orderEffect_def)
  then show ?thesis
    unfolding c by (cases b3) (simp_all add: playEffect_frame resetEffect_def)
qed

text \<open>
  Claim C10, as the code has it. Through every sequence of events after mounting, the
  remaining counter is positive and at most 5 and the configured count lies in [1,5];
  whenever the configured count is a whole number the counter is at least 1. The count
  is clamped to [1,5] when it is loaded and on every change by the user (it is not
  rounded), the counter starts as the count, is set to the count by the effect that
  follows a change of position, folder or count, and \<open>advanceOrRepeat\<close> leaves it alone
  unless it exceeds 1.
\<close>

theorem repeat_counter_bounds:
  "0 < repeatRemainRef (run es (mount fs st rnd))
   \<and> repeatRemainRef (run es (mount fs st rnd)) \<le> 5
   \<and> 1 \<le> repeatCount (run es (mount fs st rnd))
   \<and> repeatCount (run es (mount fs st rnd)) \<le> 5
   \<and> (repeatCount (run es (mount fs st rnd)) \<in> \<int> \<longrightarrow>
        1 \<le> repeatRemainRef (run es (mount fs st rnd)))
   \<and> repeatCount (mount fs st rnd) = clampRepeat (loadNumber (st_repeat st) 1)
   \<and> repeatRemainRef (mount fs st rnd) = repeatCount (mount fs st rnd)
   \<and> repeatCount (step (SetRepeatCount v) s) = clampRepeat v
   \<and> 1 \<le> clampRepeat v \<and> clampRepeat v \<le> 5
   \<and> (index new \<noteq> index old \<or> selectedFolderId new \<noteq> selectedFolderId old
        \<or> repeatCount new \<noteq> repeatCount old \<longrightarrow>
        repeatRemainRef (commit rnd' old new) = repeatCount new)
   \<and> (\<not> 1 < repeatRemainRef t \<longrightarrow> advanceOrRepeat f g t = g t)"
proof -
  have "counter_inv (run es (mount fs st rnd))"
    using mount_counter by (rule run_counter)
  then have 1: "0 < repeatRemainRef (run es (mount fs st rnd))
   \<and> repeatRemainRef (run es (mount fs st rnd)) \<le> 5
   \<and> 1 \<le> repeatCount (run es (mount fs st rnd))
   \<and> repeatCount (run es (mount fs st rnd)) \<le> 5
   \<and> (repeatCount (run es (mount fs st rnd)) \<in> \<int> \<longrightarrow>
        1 \<le> repeatRemainRef (run es (mount fs st rnd)))"
    by (simp add: counter_inv_def)
  have 2: "repeatCount (mount fs st rnd) = clampRepeat (loadNumber (st_repeat st) 1)
   \<and> repeatRemainRef (mount fs st rnd) = repeatCount (mount fs st rnd)"
    by (simp add: mount_frame)
  have 3: "repeatCount (step (SetRepeatCount v) s) = clampRepeat v"
    by (simp add: step_setRepeatCount)
  have 4: "index new \<noteq> index old \<or> selectedFolderId new \<noteq> selectedFolderId old
        \<or> repeatCount new \<noteq> repeatCount old \<longrightarrow>
        repeatRemainRef (commit rnd' old new) = repeatCount new"
    by (simp add: commit_resets)
  have 5: "\<not> 1 < repeatRemainRef t \<longrightarrow> advanceOrRepeat f g t = g t"
    by (simp add: advanceOrRepeat_def)
  from 1 2 3 4 5 clampRepeat_bounds [of v] show ?thesis by blast
qed


theorem repeat_counter_bounds_witness:
  "repeatCount (run [] (mount SAMPLE_FOLDERS repeat2_storage no_draws)) \<in> \<int>
   \<and> 1 \<le> repeatRemainRef (run [] (mount SAMPLE_FOLDERS repeat2_storage no_draws))
   \<and> index ((mount SAMPLE_FOLDERS repeat2_storage no_draws)\<lparr>index := Some 1\<rparr>)
        \<noteq> index (mount SAMPLE_FOLDERS repeat2_storage no_draws)
   \<and> repeatRemainRef (commit no_draws (mount SAMPLE_FOLDERS repeat2_storage no_draws)
          ((mount SAMPLE_FOLDERS repeat2_storage no_draws)\<lparr>index := Some 1\<rparr>)) = 2
   \<and> \<not> 1 < repeatRemainRef (mount SAMPLE_FOLDERS empty_storage no_draws)
   \<and> advanceOrRepeat id id (mount SAMPLE_FOLDERS empty_storage no_draws)
       = mount SAMPLE_FOLDERS empty_storage no_draws"
proof -
  let ?s = "mount SAMPLE_FOLDERS repeat2_storage no_draws"
  let ?t = "mount SAMPLE_FOLDERS empty_storage no_draws"
  have c: "repeatCount ?s = 2"
    by (simp add: mount_frame repeat2_storage_simps)
  have h1: "repeatCount (run [] ?s) \<in> \<int>"
    by (simp add: run_Nil c)
  have h2: "index (?s\<lparr>index := Some 1\<rparr>) \<noteq> index ?s"
    by (simp add: mount_frame)
  have h3: "\<not> 1 < repeatRemainRef ?t"
    by (simp add: mount_frame empty_storage_def loadNumber_def clampRepeat_def)
  from repeat_counter_bounds [of "[]" SAMPLE_FOLDERS repeat2_storage no_draws 1 ?s
      "?s\<lparr>index := Some 1\<rparr>" ?s no_draws ?t id id] h1 h2 h3
  have "1 \<le> repeatRemainRef (run [] ?s)"
    and "repeatRemainRef (commit no_draws ?s (?s\<lparr>index := Some 1\<rparr>))
          = repeatCount (?s\<lparr>index := Some 1\<rparr>)"
    and "advanceOrRepeat id id ?t = id ?t"
    by blast+
  then show ?thesis
    using h1 h2 h3 by (simp add: c)
qed

lemma fractional_storage_simps:
  "st_lastFolder fractional_storage = None" "st_shuffle fractional_storage = None"
  "st_readDesc fractional_storage = None"
  "clampRepeat (loadNumber (st_repeat fractional_storage) 1) = 3 / 2"
  by (simp_all add: fractional_storage_def empty_storage_def loadNumber_def clampRepeat_def)

text \<open>
  Claim C10 as stated fails: a stored count of one and a half passes the clamp as it is,
  and the first completed unit takes the counter to one half.
\<close>

theorem fractional_count_below_one:
  "repeatRemainRef (run [OpenFolder 100 True no_draws, ClickUnlock, ClickReplay,
                         AudioEnded ''/audio/0001_ko-KR.mp3'']
                     (mount SAMPLE_FOLDERS fractional_storage no_draws)) = 1 / 2
   \<and> \<not> 1 \<le> repeatRemainRef (run [OpenFolder 100 True no_draws, ClickUnlock, ClickReplay,
                         AudioEnded ''/audio/0001_ko-KR.mp3'']
                     (mount SAMPLE_FOLDERS fractional_storage no_draws))"
proof -
  define s where "s = run [OpenFolder 100 True no_draws, ClickUnlock]
                   (mount SAMPLE_FOLDERS fractional_storage no_draws)"
  note o = autoplay_sample_deck [OF fractional_storage_simps(1,2,3), folded s_def,
      unfolded fractional_storage_simps(4)]
  define r where "r = render_of s"
  define s3 where "s3 = playRecordedOrTTS r SAMPLE_CARD (s\<lparr>repeatRemainRef := repeatCount s\<rparr>)"
  have r: "r_isUnlocked r" "r_preferAudio r"
    using o by (simp_all add: r_def render_of_def)
  have e3: "step ClickReplay s = s3"
    unfolding s3_def r_def step_replay using o(3) by (simp add: replayClick_def)
  note a = audio_start [OF r(1,2), of SAMPLE_CARD "s\<lparr>repeatRemainRef := repeatCount s\<rparr>"]
  have a3: "audioCache s3 (audioUrlOf SAMPLE_CARD)
      = (Some (AudioUnitEnd SAMPLE_CARD r), Some (AudioUnitEnd SAMPLE_CARD r))"
    unfolding s3_def a by simp
  have f3: "repeatRemainRef s3 = 3 / 2"
    unfolding s3_def using o by (simp add: playRecordedOrTTS_frame)
  define s4 where "s4 = s3\<lparr>repeatRemainRef := repeatRemainRef s3 - 1,
      plays := plays s3 @ [Some (AudioUnitEnd SAMPLE_CARD r)],
      trace := trace s3 @ [PlayAudio (audioUrlOf SAMPLE_CARD)]\<rparr>"
  have "1 < repeatRemainRef s3"
    by (simp add: f3)
  with a3 have e4: "step (AudioEnded (audioUrlOf SAMPLE_CARD)) s3 = s4"
    unfolding s4_def by (rule audio_repeat_step)
  have f4: "repeatRemainRef s4 = 1 / 2"
    unfolding s4_def by (simp add: f3)
  have run4: "run [OpenFolder 100 True no_draws, ClickUnlock, ClickReplay,
                  AudioEnded ''/audio/0001_ko-KR.mp3'']
               (mount SAMPLE_FOLDERS fractional_storage no_draws) = s4"
    using e3 e4 by (simp add: run_Cons run_Nil s_def sample_url)
  show ?thesis
    unfolding run4 f4 by simp
qed

end
